theory Spec2Isabelle
  imports Complex_Main "HOL-Library.Word"
begin

section \<open>A chained hash table with hash-ordered buckets (hash\_table.c)\<close>

text \<open>
  The development embeds the functions of \<^verbatim>\<open>src/hash_table.c\<close>. The platform is the one
  the repository builds on (gcc, LP64): \<^verbatim>\<open>size_t\<close> and \<^verbatim>\<open>unsigned long\<close> are 64-bit words,
  \<^verbatim>\<open>int\<close> is a 32-bit two's complement word, a conversion to \<^verbatim>\<open>int\<close> keeps the low 32 bits,
  a conversion from \<^verbatim>\<open>int\<close> to an unsigned 64-bit type extends the sign, and \<^verbatim>\<open>float\<close> is
  IEEE 754 binary32 with round-to-nearest-even.
\<close>

type_synonym size_t = "64 word"
type_synonym ulong = "64 word"
type_synonym c_int = "32 word"

subsection \<open>The float arithmetic of the load test\<close>

text \<open>
  A \<^verbatim>\<open>float\<close> is a finite value (kept as the rational it denotes), an infinity or a NaN.
  The table only compares floats and divides two converted counts, so the sign of zero
  is not represented.
\<close>

datatype cfloat = Finite rat | PlusInf | MinusInf | NaN

text \<open>\<^verbatim>\<open>a <= b\<close> on floats: false as soon as one side is a NaN.\<close>

fun float_le :: "cfloat \<Rightarrow> cfloat \<Rightarrow> bool" where
  "float_le NaN b = False"
| "float_le a NaN = False"
| "float_le MinusInf b = True"
| "float_le a PlusInf = True"
| "float_le (Finite a) (Finite b) = (a \<le> b)"
| "float_le a b = False"

fun bit_length :: "nat \<Rightarrow> nat" where
  "bit_length n = (if n = 0 then 0 else Suc (bit_length (n div 2)))"

declare bit_length.simps [simp del]

text \<open>Integer division \<open>num / den\<close> rounded to the nearest integer, ties to the even one.\<close>

definition round_half_even_div :: "nat \<Rightarrow> nat \<Rightarrow> nat" where
  "round_half_even_div num den =
     (let q = num div den; r = num mod den
      in if 2 * r < den then q else if den < 2 * r then q + 1
         else if even q then q else q + 1)"

text \<open>The exponent \<open>e\<close> with \<open>2^e \<le> a / b < 2^(e+1)\<close>, for positive \<open>a\<close> and \<open>b\<close>.\<close>

definition floor_log2 :: "nat \<Rightarrow> nat \<Rightarrow> int" where
  "floor_log2 a b =
     (let e = int (bit_length a) - int (bit_length b)
      in if (if 0 \<le> e then b * 2 ^ nat e \<le> a else b \<le> a * 2 ^ nat (- e)) then e else e - 1)"

text \<open>
  Rounding the non-negative rational \<open>a / b\<close> to binary32: 24 significant bits, ties to
  even, subnormal below \<open>2^-126\<close>. The quotients that occur are those of two converted
  64-bit counts, so the result never overflows to an infinity.
\<close>

definition binary32_round :: "nat \<Rightarrow> nat \<Rightarrow> rat" where
  "binary32_round a b =
     (if a = 0 then 0
      else let k = max (floor_log2 a b) (- 126) - 23;
               m = (if 0 \<le> k then round_half_even_div a (b * 2 ^ nat k)
                    else round_half_even_div (a * 2 ^ nat (- k)) b)
           in of_nat m * 2 powi k)"

text \<open>
  \<^verbatim>\<open>(float) n\<close> for an unsigned 64-bit \<open>n\<close>: exact below \<open>2^24\<close>, rounded to 24 significant
  bits above; the value is again a natural number.
\<close>

definition float_of_size_t :: "size_t \<Rightarrow> nat" where
  "float_of_size_t n =
     (let a = unat n; k = bit_length a - 24
      in round_half_even_div a (2 ^ k) * 2 ^ k)"

text \<open>\<^verbatim>\<open>(float) ht->size / (float) ht->no_buckets\<close>, line 192.\<close>

definition current_load :: "size_t \<Rightarrow> size_t \<Rightarrow> cfloat" where
  "current_load sz nb =
     (if nb = 0 then (if sz = 0 then NaN else PlusInf)
      else Finite (binary32_round (float_of_size_t sz) (float_of_size_t nb)))"

subsection \<open>Entries, chains and the table record\<close>

text \<open>
  \<^verbatim>\<open>elem_t\<close> is an untagged union (int, unsigned, bool, float, pointer). The table stores
  and copies elements without looking into them: only the hash function and the
  predicates given at creation interpret them, and the three default functions read the
  member \<^verbatim>\<open>i\<close>. Elements are therefore a type parameter \<open>'e\<close>, and the read of member
  \<^verbatim>\<open>i\<close> is a function \<open>'e \<Rightarrow> c_int\<close> handed to the constructor.

  An entry is its key and its value; the \<^verbatim>\<open>next\<close> pointers of a chain are the list
  structure. The bucket array is the list of the chains hanging off its sentinel heads
  (the dummy key and value of a sentinel are never read).
\<close>

type_synonym 'e entry = "'e \<times> 'e"

type_synonym 'e hash_fn = "'e \<Rightarrow> ulong"

type_synonym ('e, 'x) predicate_ht = "'e \<Rightarrow> 'e \<Rightarrow> 'x \<Rightarrow> bool"

type_synonym ('e, 'x) apply_function_ht = "'e \<Rightarrow> 'e \<Rightarrow> 'x \<Rightarrow> 'e"

record 'e hash_table =
  no_buckets :: size_t
  load_factor :: cfloat
  hash_function :: "'e hash_fn"
  key_equiv :: "('e, 'e) predicate_ht"
  value_equiv :: "('e, 'e) predicate_ht"
  size_ht :: size_t
  buckets :: "'e entry list list"

definition primes :: "size_t list" where
  "primes = [17, 31, 67, 127, 257, 509, 1021, 2053, 4099, 8191, 16381]"

subsection \<open>Default functions and the prime library\<close>

definition default_hash_function :: "('e \<Rightarrow> c_int) \<Rightarrow> 'e hash_fn" where
  "default_hash_function member_i key = scast (member_i key)"

definition default_key_equiv :: "('e \<Rightarrow> c_int) \<Rightarrow> ('e, 'e) predicate_ht" where
  "default_key_equiv member_i key value_ignored x \<longleftrightarrow> member_i key = member_i x"

definition default_value_equiv :: "('e \<Rightarrow> c_int) \<Rightarrow> ('e, 'e) predicate_ht" where
  "default_value_equiv member_i key_ignored val x \<longleftrightarrow> member_i val = member_i x"

text \<open>
  \<^verbatim>\<open>is_number_in_prime_library(const int num)\<close>: the comparison \<^verbatim>\<open>primes[i] == num\<close> is made
  in \<^verbatim>\<open>size_t\<close>, with \<open>num\<close> sign-extended.
\<close>

definition is_number_in_prime_library :: "c_int \<Rightarrow> bool" where
  "is_number_in_prime_library num = list_ex (\<lambda>p. p = scast num) primes"

text \<open>
  The scan of \<^verbatim>\<open>get_next_prime_number\<close>: at the first match the successor in the array
  is returned (narrowed to \<^verbatim>\<open>int\<close>), or \<open>-1\<close> when the match is the last element.
\<close>

fun next_prime_scan :: "size_t list \<Rightarrow> c_int \<Rightarrow> c_int" where
  "next_prime_scan [] current = - 1"
| "next_prime_scan (p # ps) current =
     (if p = scast current then (case ps of [] \<Rightarrow> - 1 | q # _ \<Rightarrow> ucast q)
      else next_prime_scan ps current)"

definition get_next_prime_number :: "c_int \<Rightarrow> c_int" where
  "get_next_prime_number current = next_prime_scan primes current"

subsection \<open>Chains\<close>

text \<open>
  \<^verbatim>\<open>const int bucket = hash_key % no_buckets\<close> followed by \<^verbatim>\<open>&buckets[bucket]\<close>. The
  remainder is narrowed to \<^verbatim>\<open>int\<close>; it is below \<open>2^31\<close> for every bucket count of the
  prime library, so that the index is never negative in a table the operations build.
\<close>

definition bucket_of :: "ulong \<Rightarrow> size_t \<Rightarrow> nat" where
  "bucket_of hash_key nb = nat (sint (ucast (hash_key mod nb) :: c_int))"

text \<open>
  \<^verbatim>\<open>find_previous_entry_for_key\<close> returns the last node (the sentinel included) before
  the first entry whose hash is not below \<open>key\<close>. The result here is the number of
  entries stepped over: \<open>0\<close> is the sentinel, and the returned node's \<^verbatim>\<open>next\<close> is the entry
  at that position of the chain (\<^verbatim>\<open>NULL\<close> when the position is the chain's length).
\<close>

fun find_previous_entry_for_key :: "'e hash_fn \<Rightarrow> 'e entry list \<Rightarrow> ulong \<Rightarrow> nat" where
  "find_previous_entry_for_key func [] key = 0"
| "find_previous_entry_for_key func (cursor # rest) key =
     (if key \<le> func (fst cursor) then 0
      else Suc (find_previous_entry_for_key func rest key))"

text \<open>The loop of \<^verbatim>\<open>hash_table_lookup\<close> over one chain: the first entry with the hash wins.\<close>

fun chain_lookup :: "'e hash_fn \<Rightarrow> 'e entry list \<Rightarrow> ulong \<Rightarrow> 'e option" where
  "chain_lookup func [] hash_key = None"
| "chain_lookup func (cursor # rest) hash_key =
     (if func (fst cursor) = hash_key then Some (snd cursor)
      else chain_lookup func rest hash_key)"

text \<open>
  \<^verbatim>\<open>hash_table_lookup\<close>: \<open>Some v\<close> is the return value \<^verbatim>\<open>true\<close> with \<open>v\<close> stored through
  \<^verbatim>\<open>result\<close>, \<open>None\<close> is \<^verbatim>\<open>false\<close> with \<^verbatim>\<open>result\<close> untouched.
\<close>

definition hash_table_lookup :: "'e hash_table \<Rightarrow> 'e \<Rightarrow> 'e option" where
  "hash_table_lookup ht key =
     (let hash_key = hash_function ht key;
          bucket = bucket_of hash_key (no_buckets ht)
      in chain_lookup (hash_function ht) (buckets ht ! bucket) hash_key)"

subsection \<open>Resize and rehash\<close>

text \<open>
  One step of the rehash loop (lines 220 to 227): the entry is linked into its chain of
  the new array behind the node returned by \<^verbatim>\<open>find_previous_entry_for_key\<close>.
\<close>

definition rehash_entry :: "'e hash_fn \<Rightarrow> c_int \<Rightarrow> 'e entry \<Rightarrow> 'e entry list list \<Rightarrow> 'e entry list list" where
  "rehash_entry func no_buckets_new cursor buckets_new =
     (let hash_key = func (fst cursor);
          bucket = bucket_of hash_key (scast no_buckets_new);
          chain = buckets_new ! bucket;
          pos = find_previous_entry_for_key func chain hash_key
      in buckets_new[bucket := take pos chain @ cursor # drop pos chain])"

text \<open>
  \<^verbatim>\<open>hash_table_resize\<close>. The flag says whether \<^verbatim>\<open>calloc\<close> of the new bucket array
  succeeds; when it fails, or when there is no next prime, the table is returned as
  it is.
\<close>

definition hash_table_resize :: "bool \<Rightarrow> 'e hash_table \<Rightarrow> 'e hash_table" where
  "hash_table_resize calloc_ok ht =
     (if float_le (load_factor ht) (current_load (size_ht ht) (no_buckets ht)) then
        (let no_buckets_new = get_next_prime_number (ucast (no_buckets ht)) in
         if no_buckets_new \<noteq> - 1 then
           (let no_buckets_old = (ucast (no_buckets ht) :: c_int) in
            if \<not> calloc_ok then ht
            else
              ht\<lparr>buckets :=
                    fold (\<lambda>i buckets_new. fold (rehash_entry (hash_function ht) no_buckets_new)
                                            (buckets ht ! i) buckets_new)
                      [0..<nat (sint no_buckets_old)]
                      (replicate (unat (scast no_buckets_new :: size_t)) []),
                  no_buckets := scast no_buckets_new\<rparr>)
         else ht)
      else ht)"

subsection \<open>Creation\<close>

text \<open>
  \<^verbatim>\<open>hash_table_create_dynamic\<close> returns a table, or \<^verbatim>\<open>NULL\<close> after one of four
  diagnostics. When the bucket count passes the library test and both allocations
  succeed but the count does not fit an \<^verbatim>\<open>int\<close>, the counter of the initialising loop
  (line 369, \<^verbatim>\<open>for (int i = 0; i < ht->no_buckets; ++i)\<close>) overflows, which is
  undefined behaviour.
\<close>

datatype diagnostic =
    Bucket_size_not_in_prime_library
  | Load_factor_not_greater_than_0
  | Failed_to_allocate_hash_table
  | Failed_to_allocate_entries

datatype 'e creation = Table "'e hash_table" | Null diagnostic | Loop_counter_overflow

definition hash_table_create_dynamic ::
  "('e \<Rightarrow> c_int) \<Rightarrow> bool \<Rightarrow> bool \<Rightarrow> size_t \<Rightarrow> cfloat \<Rightarrow> 'e hash_fn option \<Rightarrow>
     ('e, 'e) predicate_ht option \<Rightarrow> ('e, 'e) predicate_ht option \<Rightarrow> 'e creation" where
  "hash_table_create_dynamic member_i table_calloc_ok buckets_calloc_ok nb lf func
       key_comp_fun value_comp_fun =
     (if \<not> is_number_in_prime_library (ucast nb) then Null Bucket_size_not_in_prime_library
      else if float_le lf (Finite 0) then Null Load_factor_not_greater_than_0
      else if \<not> table_calloc_ok then Null Failed_to_allocate_hash_table
      else if \<not> buckets_calloc_ok then Null Failed_to_allocate_entries
      else if 2 ^ 31 \<le> unat nb then Loop_counter_overflow
      else Table
        \<lparr>no_buckets = nb,
         load_factor = lf,
         hash_function = (case func of None \<Rightarrow> default_hash_function member_i | Some f \<Rightarrow> f),
         key_equiv = (case key_comp_fun of None \<Rightarrow> default_key_equiv member_i | Some f \<Rightarrow> f),
         value_equiv = (case value_comp_fun of None \<Rightarrow> default_value_equiv member_i | Some f \<Rightarrow> f),
         size_ht = 0,
         buckets = replicate (unat nb) []\<rparr>)"

definition hash_table_create ::
  "('e \<Rightarrow> c_int) \<Rightarrow> bool \<Rightarrow> bool \<Rightarrow> 'e hash_fn option \<Rightarrow>
     ('e, 'e) predicate_ht option \<Rightarrow> ('e, 'e) predicate_ht option \<Rightarrow> 'e creation" where
  "hash_table_create member_i table_calloc_ok buckets_calloc_ok func key_comp_fun value_comp_fun =
     hash_table_create_dynamic member_i table_calloc_ok buckets_calloc_ok 17 (Finite (3 / 4))
       func key_comp_fun value_comp_fun"

subsection \<open>Insert, remove, clear\<close>

text \<open>
  \<^verbatim>\<open>hash_table_insert\<close>. The first flag is the \<^verbatim>\<open>calloc\<close> of the resize, the second the
  \<^verbatim>\<open>calloc\<close> of \<^verbatim>\<open>entry_create\<close>; when the latter fails the insertion is dropped after
  a message. An entry with the key's hash keeps its key and gets the new value.
\<close>

definition hash_table_insert ::
  "bool \<Rightarrow> bool \<Rightarrow> 'e hash_table \<Rightarrow> 'e \<Rightarrow> 'e \<Rightarrow> 'e hash_table" where
  "hash_table_insert resize_calloc_ok entry_calloc_ok ht0 key val =
     (let ht = hash_table_resize resize_calloc_ok ht0;
          hash_key = hash_function ht key;
          bucket = bucket_of hash_key (no_buckets ht);
          chain = buckets ht ! bucket;
          entry = find_previous_entry_for_key (hash_function ht) chain hash_key
      in if entry < length chain \<and> hash_function ht (fst (chain ! entry)) = hash_key
         then ht\<lparr>buckets := (buckets ht)[bucket := chain[entry := (fst (chain ! entry), val)]]\<rparr>
         else if \<not> entry_calloc_ok then ht
         else ht\<lparr>buckets := (buckets ht)[bucket := take entry chain @ (key, val) # drop entry chain],
                 size_ht := size_ht ht + 1\<rparr>)"

text \<open>
  \<^verbatim>\<open>hash_table_remove\<close> returns the table and the result of the lookup it starts with.
  After a successful lookup the node behind the one returned by
  \<^verbatim>\<open>find_previous_entry_for_key\<close> is unlinked.
\<close>

definition hash_table_remove :: "'e hash_table \<Rightarrow> 'e \<Rightarrow> 'e hash_table \<times> 'e option" where
  "hash_table_remove ht key =
     (let hash_key = hash_function ht key;
          bucket = bucket_of hash_key (no_buckets ht)
      in case hash_table_lookup ht key of
           None \<Rightarrow> (ht, None)
         | Some r \<Rightarrow>
             (let chain = buckets ht ! bucket;
                  entry = find_previous_entry_for_key (hash_function ht) chain hash_key
              in (ht\<lparr>buckets := (buckets ht)[bucket := take entry chain @ drop (Suc entry) chain],
                     size_ht := size_ht ht - 1\<rparr>, Some r)))"

definition clear_bucket :: "nat \<Rightarrow> 'e hash_table \<Rightarrow> 'e hash_table" where
  "clear_bucket i ht =
     ht\<lparr>buckets := (buckets ht)[i := []],
        size_ht := size_ht ht - of_nat (length (buckets ht ! i))\<rparr>"

definition hash_table_clear :: "'e hash_table \<Rightarrow> 'e hash_table" where
  "hash_table_clear ht = fold clear_bucket [0..<unat (no_buckets ht)] ht"

subsection \<open>Keys, values and the bulk operations\<close>

text \<open>
  Modelled from the spec: the ordered-sequence collaborator (\<^verbatim>\<open>linked_list.h\<close> belongs to
  another repository and is not among the sources). Section 6 of the specification asks
  of it creation, append, positional get and destruction; a sequence is a list here,
  append adds at the end, and a positional get beyond the end has no result.
\<close>

definition linked_list_append :: "'a list \<Rightarrow> 'a \<Rightarrow> 'a list" where
  "linked_list_append xs x = xs @ [x]"

definition linked_list_get :: "'a list \<Rightarrow> nat \<Rightarrow> 'a option" where
  "linked_list_get xs i = (if i < length xs then Some (xs ! i) else None)"

definition hash_table_keys :: "'e hash_table \<Rightarrow> 'e list" where
  "hash_table_keys ht =
     fold (\<lambda>i keys. fold (\<lambda>cursor keys. linked_list_append keys (fst cursor)) (buckets ht ! i) keys)
       [0..<unat (no_buckets ht)] []"

definition hash_table_values :: "'e hash_table \<Rightarrow> 'e list" where
  "hash_table_values ht =
     fold (\<lambda>i vals. fold (\<lambda>cursor vals. linked_list_append vals (snd cursor)) (buckets ht ! i) vals)
       [0..<unat (no_buckets ht)] []"

datatype fault = Null_dereference | Out_of_bounds | List_index_out_of_range

text \<open>
  The loops of \<^verbatim>\<open>hash_table_all\<close> and \<^verbatim>\<open>hash_table_any\<close> over the indices below
  \<^verbatim>\<open>size\<close>. Next to the result they return the pairs the predicate was called on, in
  call order.
\<close>

fun all_loop ::
  "('e, 'x) predicate_ht \<Rightarrow> 'x \<Rightarrow> 'e list \<Rightarrow> 'e list \<Rightarrow> nat list \<Rightarrow> fault + bool \<times> 'e entry list" where
  "all_loop P x keys vals [] = Inr (True, [])"
| "all_loop P x keys vals (i # rest) =
     (case (linked_list_get keys i, linked_list_get vals i) of
        (Some k, Some v) \<Rightarrow>
          if P k v x
          then (case all_loop P x keys vals rest of
                  Inl flt \<Rightarrow> Inl flt
                | Inr (result, calls) \<Rightarrow> Inr (result, (k, v) # calls))
          else Inr (False, [(k, v)])
      | _ \<Rightarrow> Inl List_index_out_of_range)"

fun any_loop ::
  "('e, 'x) predicate_ht \<Rightarrow> 'x \<Rightarrow> 'e list \<Rightarrow> 'e list \<Rightarrow> nat list \<Rightarrow> fault + bool \<times> 'e entry list" where
  "any_loop P x keys vals [] = Inr (False, [])"
| "any_loop P x keys vals (i # rest) =
     (case (linked_list_get keys i, linked_list_get vals i) of
        (Some k, Some v) \<Rightarrow>
          if P k v x then Inr (True, [(k, v)])
          else (case any_loop P x keys vals rest of
                  Inl flt \<Rightarrow> Inl flt
                | Inr (result, calls) \<Rightarrow> Inr (result, (k, v) # calls))
      | _ \<Rightarrow> Inl List_index_out_of_range)"

definition hash_table_all_calls ::
  "'e hash_table \<Rightarrow> ('e, 'x) predicate_ht \<Rightarrow> 'x \<Rightarrow> fault + bool \<times> 'e entry list" where
  "hash_table_all_calls ht P x =
     all_loop P x (hash_table_keys ht) (hash_table_values ht) [0..<unat (size_ht ht)]"

definition hash_table_all :: "'e hash_table \<Rightarrow> ('e, 'x) predicate_ht \<Rightarrow> 'x \<Rightarrow> fault + bool" where
  "hash_table_all ht P x = map_sum id fst (hash_table_all_calls ht P x)"

definition hash_table_any_calls ::
  "'e hash_table \<Rightarrow> ('e, 'x) predicate_ht \<Rightarrow> 'x \<Rightarrow> fault + bool \<times> 'e entry list" where
  "hash_table_any_calls ht P x =
     any_loop P x (hash_table_keys ht) (hash_table_values ht) [0..<unat (size_ht ht)]"

definition hash_table_any :: "'e hash_table \<Rightarrow> ('e, 'x) predicate_ht \<Rightarrow> 'x \<Rightarrow> fault + bool" where
  "hash_table_any ht P x = map_sum id fst (hash_table_any_calls ht P x)"

definition hash_table_has_key :: "'e hash_table \<Rightarrow> 'e \<Rightarrow> fault + bool" where
  "hash_table_has_key ht key = hash_table_any ht (key_equiv ht) key"

definition hash_table_has_value :: "'e hash_table \<Rightarrow> 'e \<Rightarrow> fault + bool" where
  "hash_table_has_value ht val = hash_table_any ht (value_equiv ht) val"

subsection \<open>apply\_to\_all and its array of value pointers\<close>

text \<open>
  \<^verbatim>\<open>hash_table_values_arr\<close> allocates \<^verbatim>\<open>size * sizeof(elem_t)\<close> bytes, that is one pointer
  slot per counted entry (both sizes are 8), all \<^verbatim>\<open>NULL\<close>. A pointer \<^verbatim>\<open>&cursor->value\<close> is
  the bucket index and the position of the entry in its chain. The array itself is
  \<open>None\<close> when \<^verbatim>\<open>calloc\<close> returned \<^verbatim>\<open>NULL\<close> (the code does not test it). The store of
  line 728 goes to slot \<^verbatim>\<open>i + j\<close>, bucket index plus position in the chain.
\<close>

type_synonym value_ref = "nat \<times> nat"

definition store_ref ::
  "nat \<Rightarrow> value_ref \<Rightarrow> fault + value_ref option list option \<Rightarrow> fault + value_ref option list option" where
  "store_ref idx r arr =
     (case arr of
        Inl flt \<Rightarrow> Inl flt
      | Inr None \<Rightarrow> Inl Null_dereference
      | Inr (Some slots) \<Rightarrow>
          if idx < length slots then Inr (Some (slots[idx := Some r])) else Inl Out_of_bounds)"

definition hash_table_values_arr ::
  "bool \<Rightarrow> 'e hash_table \<Rightarrow> fault + value_ref option list option" where
  "hash_table_values_arr calloc_ok ht =
     fold (\<lambda>i arr. fold (\<lambda>j arr. store_ref (i + j) (i, j) arr) [0..<length (buckets ht ! i)] arr)
       [0..<unat (no_buckets ht)]
       (Inr (if calloc_ok then Some (replicate (unat (size_ht ht * 8) div 8) None) else None))"

text \<open>
  One round of the loop of \<^verbatim>\<open>hash_table_apply_to_all\<close>. A transform is modelled by the
  value it stores through its pointer argument, computed from the key, the value found
  there and the extra data; handed \<^verbatim>\<open>NULL\<close>, it dereferences it.
\<close>

definition apply_step ::
  "('e, 'x) apply_function_ht \<Rightarrow> 'x \<Rightarrow> 'e list \<Rightarrow> value_ref option list option \<Rightarrow> nat \<Rightarrow>
     fault + 'e hash_table \<Rightarrow> fault + 'e hash_table" where
  "apply_step f x keys arr i st =
     (case st of
        Inl flt \<Rightarrow> Inl flt
      | Inr ht \<Rightarrow>
          (case linked_list_get keys i of
             None \<Rightarrow> Inl List_index_out_of_range
           | Some key \<Rightarrow>
               (case arr of
                  None \<Rightarrow> Inl Null_dereference
                | Some slots \<Rightarrow>
                    if length slots \<le> i then Inl Out_of_bounds
                    else (case slots ! i of
                            None \<Rightarrow> Inl Null_dereference
                          | Some (b, j) \<Rightarrow>
                              (let chain = buckets ht ! b; cursor = chain ! j
                               in Inr (ht\<lparr>buckets := (buckets ht)
                                          [b := chain[j := (fst cursor, f key (snd cursor) x)]]\<rparr>))))))"

definition hash_table_apply_to_all ::
  "bool \<Rightarrow> 'e hash_table \<Rightarrow> ('e, 'x) apply_function_ht \<Rightarrow> 'x \<Rightarrow> fault + 'e hash_table" where
  "hash_table_apply_to_all calloc_ok ht f x =
     (let keys = hash_table_keys ht in
      case hash_table_values_arr calloc_ok ht of
        Inl flt \<Rightarrow> Inl flt
      | Inr arr \<Rightarrow> fold (apply_step f x keys arr) [0..<unat (size_ht ht)] (Inr ht))"

subsection \<open>Reachable tables and the table invariant\<close>

text \<open>
  The tables a client can hold: the results of the constructor, closed under insert,
  remove, clear and the runs of apply\_to\_all that end without a fault.
\<close>

inductive reachable :: "'e hash_table \<Rightarrow> bool" where
  create: "hash_table_create_dynamic member_i table_ok buckets_ok nb lf func kf vf = Table ht
           \<Longrightarrow> reachable ht"
| insert: "reachable ht \<Longrightarrow> reachable (hash_table_insert resize_ok entry_ok ht key val)"
| remove: "reachable ht \<Longrightarrow> reachable (fst (hash_table_remove ht key))"
| clear: "reachable ht \<Longrightarrow> reachable (hash_table_clear ht)"
| apply_to_all: "reachable ht \<Longrightarrow> hash_table_apply_to_all calloc_ok ht f (x :: 'e) = Inr ht'
           \<Longrightarrow> reachable ht'"

text \<open>
  A chain is in order when the hashes of its keys strictly ascend, and belongs to bucket
  \<open>i\<close> when every key in it is hashed there.
\<close>

definition chain_ok :: "'e hash_fn \<Rightarrow> size_t \<Rightarrow> nat \<Rightarrow> 'e entry list \<Rightarrow> bool" where
  "chain_ok func nb i chain \<longleftrightarrow>
     sorted_wrt (<) (map (\<lambda>e. func (fst e)) chain) \<and>
     list_all (\<lambda>e. bucket_of (func (fst e)) nb = i) chain"

definition ht_inv :: "'e hash_table \<Rightarrow> bool" where
  "ht_inv ht \<longleftrightarrow>
     list_ex (\<lambda>p. p = no_buckets ht) primes \<and>
     length (buckets ht) = unat (no_buckets ht) \<and>
     list_all (\<lambda>i. chain_ok (hash_function ht) (no_buckets ht) i (buckets ht ! i))
       [0..<length (buckets ht)] \<and>
     size_ht ht = of_nat (length (concat (buckets ht)))"

text \<open>
  Ascending order of the hashes along every chain, as claimed of the data model. The
  order is strict: no two entries of a chain carry the same hash.
\<close>

definition chains_ascending :: "'e hash_table \<Rightarrow> bool" where
  "chains_ascending ht \<longleftrightarrow>
     list_all (\<lambda>chain. sorted_wrt (<) (map (\<lambda>e. hash_function ht (fst e)) chain)) (buckets ht)"

subsection \<open>Sequences of inserts and the tables of the scenarios\<close>

text \<open>
  A run of inserts, each with the outcomes of its two allocations (resize, entry), its
  key and its value.
\<close>

fun insert_all :: "(bool \<times> bool \<times> 'e \<times> 'e) list \<Rightarrow> 'e hash_table \<Rightarrow> 'e hash_table" where
  "insert_all [] ht = ht"
| "insert_all ((resize_ok, entry_ok, key, val) # rest) ht =
     insert_all rest (hash_table_insert resize_ok entry_ok ht key val)"

text \<open>
  The table of \<^verbatim>\<open>hash_table_create(NULL, NULL, NULL)\<close> on integer elements, as the tests
  build it: 17 buckets, load factor 0.75, the default functions.
\<close>

definition int_table_17 :: "c_int hash_table" where
  "int_table_17 =
     \<lparr>no_buckets = 17, load_factor = Finite (3 / 4),
      hash_function = default_hash_function id,
      key_equiv = default_key_equiv id,
      value_equiv = default_value_equiv id,
      size_ht = 0, buckets = replicate 17 []\<rparr>"

text \<open>The inserts of the keys \<open>0, \<dots>, n - 1\<close>, each with its key as value, no allocation failing.\<close>

definition key_inserts :: "nat \<Rightarrow> (bool \<times> bool \<times> c_int \<times> c_int) list" where
  "key_inserts n = map (\<lambda>i. (True, True, of_nat i, of_nat i)) [0..<n]"

text \<open>
  A table of the largest bucket count whose hash function sends every key to 7, and the
  transform \<^verbatim>\<open>set_value\<close> of the tests, which stores the extra datum.
\<close>

definition colliding_table :: "c_int hash_table" where
  "colliding_table =
     \<lparr>no_buckets = 16381, load_factor = Finite (3 / 4),
      hash_function = (\<lambda>key. 7),
      key_equiv = default_key_equiv id,
      value_equiv = default_value_equiv id,
      size_ht = 0, buckets = replicate 16381 []\<rparr>"

definition set_value :: "('e, 'e) apply_function_ht" where
  "set_value key val extra = extra"


section \<open>Verification\<close>

subsection \<open>Bucket indices and the prime library\<close>

lemma narrow_small:
  fixes w :: "64 word"
  assumes "unat w < 2 ^ 31"
  shows "nat (sint (ucast w :: 32 word)) = unat w"
proof -
  have u: "uint w < 2 ^ 31"
    using assms by (metis uint_nat of_nat_less_iff of_nat_numeral of_nat_power)
  have n: "- (2 ^ 31) \<le> uint w"
    by (rule order_trans [of _ 0]) simp_all
  have e: "uint (ucast w :: 32 word) = uint w"
    using u by (simp add: unsigned_ucast_eq take_bit_int_eq_self)
  have "signed_take_bit 31 (uint w) = uint w"
    by (rule signed_take_bit_int_eq_self) (use u n in simp_all)
  then have "sint (ucast w :: 32 word) = uint w"
    using e by (simp add: sint_uint)
  then show ?thesis by (simp only: unat_eq_nat_uint)
qed

lemma primes_cases:
  "list_ex (\<lambda>p. p = nb) primes \<longleftrightarrow>
     nb = 17 \<or> nb = 31 \<or> nb = 67 \<or> nb = 127 \<or> nb = 257 \<or> nb = 509 \<or> nb = 1021 \<or>
     nb = 2053 \<or> nb = 4099 \<or> nb = 8191 \<or> nb = 16381"
  by (auto simp add: primes_def)

lemma prime_unat_bounds:
  assumes "list_ex (\<lambda>p. p = nb) primes"
  shows "0 < unat nb \<and> unat nb < 2 ^ 31"
  using assms unfolding primes_cases by (elim disjE) simp_all

lemma bucket_of_unat:
  assumes "list_ex (\<lambda>p. p = nb) primes"
  shows "bucket_of h nb = unat h mod unat nb"
proof -
  have "unat (h mod nb) = unat h mod unat nb" by (rule unat_mod)
  moreover have "unat h mod unat nb < unat nb"
    using prime_unat_bounds [OF assms] by simp
  ultimately have "unat (h mod nb) < 2 ^ 31"
    using prime_unat_bounds [OF assms] by (metis order_less_trans)
  then show ?thesis
    unfolding bucket_of_def by (simp add: narrow_small unat_mod)
qed

lemma bucket_of_less:
  assumes "list_ex (\<lambda>p. p = nb) primes"
  shows "bucket_of h nb < unat nb"
  using prime_unat_bounds [OF assms] by (simp add: bucket_of_unat [OF assms])

lemma next_prime_ok:
  assumes "list_ex (\<lambda>p. p = nb) primes"
      and "get_next_prime_number (ucast nb) \<noteq> - 1"
  shows "list_ex (\<lambda>p. p = (scast (get_next_prime_number (ucast nb)) :: size_t)) primes"
  using assms unfolding primes_cases get_next_prime_number_def
  by (elim disjE) (simp_all add: primes_def)

lemma narrow_prime:
  assumes "list_ex (\<lambda>p. p = nb) primes"
  shows "nat (sint (ucast nb :: c_int)) = unat nb"
  using prime_unat_bounds [OF assms] by (simp add: narrow_small)

lemma next_prime_last: "get_next_prime_number (ucast (16381 :: size_t)) = - 1"
  by (simp add: get_next_prime_number_def primes_def)

subsection \<open>Chains: position of the predecessor, lookup, insertion\<close>

lemma find_previous_le_length:
  "find_previous_entry_for_key func chain key \<le> length chain"
  by (induction chain) auto

lemma find_previous_takeWhile:
  "find_previous_entry_for_key func chain key =
     length (takeWhile (\<lambda>e. func (fst e) < key) chain)"
  by (induction chain) (auto simp add: not_le)

lemma find_previous_before:
  "j < find_previous_entry_for_key func chain key \<Longrightarrow> func (fst (chain ! j)) < key"
proof (induction chain arbitrary: j)
  case Nil
  then show ?case by simp
next
  case (Cons c cs)
  then show ?case by (cases j) (auto split: if_splits)
qed

lemma find_previous_at:
  "find_previous_entry_for_key func chain key < length chain \<Longrightarrow>
     key \<le> func (fst (chain ! find_previous_entry_for_key func chain key))"
  by (induction chain) auto

text \<open>An entry with the hash in the chain makes the predecessor's successor exist.\<close>

lemma find_previous_found:
  "chain_lookup func chain key \<noteq> None \<Longrightarrow>
     find_previous_entry_for_key func chain key < length chain"
  by (induction chain) (auto split: if_splits)

lemma chain_lookup_map_of:
  "chain_lookup func chain h = map_of (map (\<lambda>e. (func (fst e), snd e)) chain) h"
  by (induction chain) auto

lemma chain_lookup_None_iff:
  "chain_lookup func chain h = None \<longleftrightarrow> h \<notin> (\<lambda>e. func (fst e)) ` set chain"
  by (induction chain) auto

text \<open>Lookup after the splice of a new entry and after the overwrite of a value.\<close>

lemma chain_lookup_splice_same:
  "chain_lookup func
     (take (find_previous_entry_for_key func chain (func key)) chain @
      (key, val) # drop (find_previous_entry_for_key func chain (func key)) chain) (func key) =
   Some val"
  by (induction chain) auto

lemma chain_lookup_splice_other:
  "h \<noteq> func key \<Longrightarrow>
   chain_lookup func (take n chain @ (key, val) # drop n chain) h = chain_lookup func chain h"
  by (induction chain arbitrary: n) (auto simp add: take_Cons drop_Cons split: nat.splits)

lemma chain_lookup_update_same:
  "find_previous_entry_for_key func chain h < length chain \<Longrightarrow>
   func (fst (chain ! find_previous_entry_for_key func chain h)) = h \<Longrightarrow>
   chain_lookup func
     (chain[find_previous_entry_for_key func chain h :=
        (fst (chain ! find_previous_entry_for_key func chain h), val)]) h = Some val"
  by (induction chain) (auto split: if_splits)

lemma chain_lookup_update_other:
  "h \<noteq> func (fst (chain ! n)) \<Longrightarrow>
   chain_lookup func (chain[n := (fst (chain ! n), val)]) h = chain_lookup func chain h"
  by (induction chain arbitrary: n) (auto simp add: nth_Cons list_update_code split: nat.splits)

lemma chain_lookup_update_other':
  "n < length chain \<Longrightarrow> h \<noteq> func (fst (chain ! n)) \<Longrightarrow>
   chain_lookup func (chain[n := (fst (chain ! n), val)]) h = chain_lookup func chain h"
  by (induction chain arbitrary: n) (auto simp add: nth_Cons split: nat.splits)

text \<open>With ascending hashes, a hash that is present sits right behind the predecessor.\<close>

lemma find_previous_hit:
  "sorted_wrt (<) (map (\<lambda>e. func (fst e)) chain) \<Longrightarrow>
   chain_lookup func chain h = Some v \<Longrightarrow>
   find_previous_entry_for_key func chain h < length chain \<and>
   func (fst (chain ! find_previous_entry_for_key func chain h)) = h \<and>
   snd (chain ! find_previous_entry_for_key func chain h) = v"
proof (induction chain)
  case Nil
  then show ?case by simp
next
  case (Cons c cs)
  show ?case
  proof (cases "func (fst c) = h")
    case True
    with Cons.prems show ?thesis by simp
  next
    case False
    with Cons.prems have look: "chain_lookup func cs h = Some v" by simp
    then have "h \<in> (\<lambda>e. func (fst e)) ` set cs"
      using chain_lookup_None_iff [of func cs h] by auto
    with Cons.prems(1) have "func (fst c) < h" by auto
    then have "\<not> h \<le> func (fst c)" by (simp add: not_le)
    with Cons.IH look Cons.prems(1) show ?thesis by simp
  qed
qed

text \<open>The splice keeps a chain ascending when the hash is new, and keeps its bucket.\<close>

lemma sorted_splice:
  assumes "sorted_wrt (<) (map (\<lambda>e. func (fst e)) chain)"
      and "chain_lookup func chain (func key) = None"
  shows "sorted_wrt (<) (map (\<lambda>e. func (fst e))
           (take (find_previous_entry_for_key func chain (func key)) chain @
            (key, val) # drop (find_previous_entry_for_key func chain (func key)) chain))"
  using assms
proof (induction chain)
  case Nil
  then show ?case by simp
next
  case (Cons c cs)
  from Cons.prems(2) have ne: "func (fst c) \<noteq> func key"
    and none: "chain_lookup func cs (func key) = None"
    by (auto split: if_splits)
  show ?case
  proof (cases "func key \<le> func (fst c)")
    case True
    with ne have "func key < func (fst c)" by simp
    with Cons.prems(1) show ?thesis by (auto simp add: True intro: order_less_trans)
  next
    case False
    then have lt: "func (fst c) < func key" by simp
    have ih: "sorted_wrt (<) (map (\<lambda>e. func (fst e))
           (take (find_previous_entry_for_key func cs (func key)) cs @
            (key, val) # drop (find_previous_entry_for_key func cs (func key)) cs))"
      using Cons.IH Cons.prems(1) none by simp
    have "\<forall>e \<in> set (take (find_previous_entry_for_key func cs (func key)) cs @
            (key, val) # drop (find_previous_entry_for_key func cs (func key)) cs).
            func (fst c) < func (fst e)"
      using Cons.prems(1) lt by (auto dest: in_set_takeD in_set_dropD)
    with ih False show ?thesis by auto
  qed
qed

lemma chain_lookup_miss:
  "\<not> (find_previous_entry_for_key func chain h < length chain \<and>
      func (fst (chain ! find_previous_entry_for_key func chain h)) = h) \<Longrightarrow>
   sorted_wrt (<) (map (\<lambda>e. func (fst e)) chain) \<Longrightarrow>
   chain_lookup func chain h = None"
  using find_previous_hit [of func chain h] by (cases "chain_lookup func chain h") auto

subsection \<open>Well-formed bucket arrays\<close>

text \<open>
  The part of the invariant that concerns the bucket array alone: as many chains as
  the bucket count says, each of them ascending and in its own bucket.
\<close>

lemma chain_ok_iff:
  "chain_ok func nb i chain \<longleftrightarrow>
     sorted_wrt (<) (map (\<lambda>e. func (fst e)) chain) \<and>
     (\<forall>e \<in> set chain. bucket_of (func (fst e)) nb = i)"
  by (simp add: chain_ok_def list_all_iff)

lemma ht_inv_iff:
  "ht_inv ht \<longleftrightarrow>
     list_ex (\<lambda>p. p = no_buckets ht) primes \<and>
     length (buckets ht) = unat (no_buckets ht) \<and>
     (\<forall>i < length (buckets ht). chain_ok (hash_function ht) (no_buckets ht) i (buckets ht ! i)) \<and>
     size_ht ht = of_nat (length (concat (buckets ht)))"
  by (auto simp add: ht_inv_def list_all_iff)

lemma chain_ok_Nil: "chain_ok func nb i []"
  by (simp add: chain_ok_iff)

lemma strict_sorted_distinct_hashes:
  fixes g :: "'a \<Rightarrow> 'b :: order"
  shows "sorted_wrt (<) (map g chain) \<Longrightarrow> distinct (map g chain)"
  by (induction chain) fastforce+

lemma chain_lookup_SomeD:
  "chain_lookup func chain h = Some v \<Longrightarrow> \<exists>k. (k, v) \<in> set chain \<and> func k = h"
  by (induction chain) (auto split: if_splits)

lemma chain_lookup_member:
  "distinct (map (\<lambda>e. func (fst e)) chain) \<Longrightarrow> (k, v) \<in> set chain \<Longrightarrow>
   chain_lookup func chain (func k) = Some v"
  by (induction chain) (auto simp add: rev_image_eqI)

lemma concat_nth_split:
  "b < length bs \<Longrightarrow> concat bs = concat (take b bs) @ bs ! b @ concat (drop (Suc b) bs)"
  by (metis concat.simps(2) concat_append id_take_nth_drop)

lemma concat_update_split:
  "b < length bs \<Longrightarrow>
   concat (bs[b := c]) = concat (take b bs) @ c @ concat (drop (Suc b) bs)"
  by (simp add: upd_conv_take_nth_drop)

lemma set_concat_update:
  assumes "b < length bs" and "set c = insert e (set (bs ! b))"
  shows "set (concat (bs[b := c])) = insert e (set (concat bs))"
proof -
  have "set (concat (bs[b := c])) =
        set (concat (take b bs)) \<union> set c \<union> set (concat (drop (Suc b) bs))"
    using assms(1) by (simp add: concat_update_split Un_assoc)
  moreover have "set (concat bs) =
        set (concat (take b bs)) \<union> set (bs ! b) \<union> set (concat (drop (Suc b) bs))"
    by (subst concat_nth_split [OF assms(1)]) (simp add: Un_assoc)
  ultimately show ?thesis using assms(2) by auto
qed

lemma length_concat_update:
  assumes "b < length bs"
  shows "length (concat (bs[b := c])) + length (bs ! b) = length (concat bs) + length c"
proof -
  have "length (concat (bs[b := c])) =
        length (concat (take b bs)) + length c + length (concat (drop (Suc b) bs))"
    using assms by (simp only: concat_update_split length_append)
  moreover have "length (concat bs) =
        length (concat (take b bs)) + length (bs ! b) + length (concat (drop (Suc b) bs))"
    by (subst concat_nth_split [OF assms]) simp
  ultimately show ?thesis by simp
qed

lemma in_concat_nth:
  "e \<in> set (concat bs) \<longleftrightarrow> (\<exists>i < length bs. e \<in> set (bs ! i))"
proof -
  have "e \<in> set (concat bs) \<longleftrightarrow> (\<exists>c \<in> set bs. e \<in> set c)" by simp
  also have "\<dots> \<longleftrightarrow> (\<exists>i < length bs. e \<in> set (bs ! i))"
    by (metis in_set_conv_nth)
  finally show ?thesis .
qed

lemma in_concat_nthI: "i < length bs \<Longrightarrow> e \<in> set (bs ! i) \<Longrightarrow> e \<in> set (concat bs)"
  by (simp only: in_concat_nth) (rule exI [of _ i], simp)

lemma in_concat_nthE:
  assumes "e \<in> set (concat bs)"
  obtains i where "i < length bs" and "e \<in> set (bs ! i)"
proof -
  from assms have "\<exists>i < length bs. e \<in> set (bs ! i)" by (simp only: in_concat_nth)
  then obtain i where "i < length bs" and "e \<in> set (bs ! i)" by (elim exE conjE)
  then show thesis by (rule that)
qed

text \<open>
  In a well-formed array the lookup of a hash in its bucket finds exactly the entries
  of the whole table that carry the hash.
\<close>

lemma wf_lookup_iff:
  assumes pr: "list_ex (\<lambda>p. p = nb) primes"
      and len: "length bs = unat nb"
      and ok: "\<forall>i < length bs. chain_ok func nb i (bs ! i)"
  shows "chain_lookup func (bs ! bucket_of h nb) h = Some v \<longleftrightarrow>
         (\<exists>k. (k, v) \<in> set (concat bs) \<and> func k = h)"
proof
  assume "chain_lookup func (bs ! bucket_of h nb) h = Some v"
  then obtain k where kb: "(k, v) \<in> set (bs ! bucket_of h nb)" and "func k = h"
    using chain_lookup_SomeD by fastforce
  have "bucket_of h nb < length bs"
    using bucket_of_less [OF pr] len by simp
  then have "(k, v) \<in> set (concat bs)"
    using kb by (rule in_concat_nthI)
  with \<open>func k = h\<close> show "\<exists>k. (k, v) \<in> set (concat bs) \<and> func k = h"
    by (intro exI conjI)
next
  assume "\<exists>k. (k, v) \<in> set (concat bs) \<and> func k = h"
  then obtain k where kc: "(k, v) \<in> set (concat bs)" and h: "func k = h"
    by (elim exE conjE)
  from kc obtain i where i: "i < length bs" and kv: "(k, v) \<in> set (bs ! i)"
    by (rule in_concat_nthE)
  from ok i have c: "chain_ok func nb i (bs ! i)" by simp
  with kv h have "bucket_of h nb = i" by (auto simp add: chain_ok_iff)
  moreover from c have "distinct (map (\<lambda>e. func (fst e)) (bs ! i))"
    by (simp add: chain_ok_iff strict_sorted_distinct_hashes)
  ultimately show "chain_lookup func (bs ! bucket_of h nb) h = Some v"
    using chain_lookup_member [of func "bs ! i" k v] kv h by simp
qed

lemma wf_lookup_None_iff:
  assumes pr: "list_ex (\<lambda>p. p = nb) primes"
      and len: "length bs = unat nb"
      and ok: "\<forall>i < length bs. chain_ok func nb i (bs ! i)"
  shows "chain_lookup func (bs ! bucket_of h nb) h = None \<longleftrightarrow>
         h \<notin> (\<lambda>e. func (fst e)) ` set (concat bs)"
proof -
  have "chain_lookup func (bs ! bucket_of h nb) h \<noteq> None \<longleftrightarrow>
        (\<exists>v k. (k, v) \<in> set (concat bs) \<and> func k = h)"
    using wf_lookup_iff [OF pr len ok, of h] by auto
  then show ?thesis by force
qed

text \<open>Two well-formed arrays with the same entries answer every lookup alike.\<close>

lemma wf_lookup_cong:
  assumes "list_ex (\<lambda>p. p = nb) primes" "length bs = unat nb"
          "\<forall>i < length bs. chain_ok func nb i (bs ! i)"
      and "list_ex (\<lambda>p. p = nb') primes" "length bs' = unat nb'"
          "\<forall>i < length bs'. chain_ok func nb' i (bs' ! i)"
      and "set (concat bs') = set (concat bs)"
  shows "chain_lookup func (bs' ! bucket_of h nb') h = chain_lookup func (bs ! bucket_of h nb) h"
proof -
  have "\<And>v. chain_lookup func (bs' ! bucket_of h nb') h = Some v \<longleftrightarrow>
            chain_lookup func (bs ! bucket_of h nb) h = Some v"
    by (simp only: wf_lookup_iff [OF assms(1-3)] wf_lookup_iff [OF assms(4-6)] assms(7))
  then show ?thesis
    by (metis not_Some_eq)
qed

text \<open>No two entries of a well-formed array carry the same hash.\<close>

lemma distinct_hashes_offset:
  "(\<forall>i < length cs. chain_ok func nb (off + i) (cs ! i)) \<Longrightarrow>
   distinct (map (\<lambda>e. func (fst e)) (concat cs))"
proof (induction cs arbitrary: off)
  case Nil
  then show ?case by simp
next
  case (Cons c cs)
  from Cons.prems have c: "chain_ok func nb off c" by force
  have rest: "\<forall>i < length cs. chain_ok func nb (Suc off + i) (cs ! i)"
  proof (intro allI impI)
    fix i assume "i < length cs"
    then have "chain_ok func nb (off + Suc i) ((c # cs) ! Suc i)"
      using Cons.prems by (metis Suc_less_eq length_Cons)
    then show "chain_ok func nb (Suc off + i) (cs ! i)" by simp
  qed
  have d1: "distinct (map (\<lambda>e. func (fst e)) c)"
    using c by (simp add: chain_ok_iff strict_sorted_distinct_hashes)
  have d2: "distinct (map (\<lambda>e. func (fst e)) (concat cs))"
    using Cons.IH [OF rest] .
  have "func (fst e) \<noteq> func (fst e')" if e: "e \<in> set c" and e': "e' \<in> set (concat cs)" for e e'
  proof -
    from e' obtain i where i: "i < length cs" and m: "e' \<in> set (cs ! i)"
      by (rule in_concat_nthE)
    from rest i m have "bucket_of (func (fst e')) nb = Suc off + i"
      by (simp add: chain_ok_iff)
    moreover from c e have "bucket_of (func (fst e)) nb = off"
      by (simp add: chain_ok_iff)
    ultimately show ?thesis by auto
  qed
  then have "(\<lambda>e. func (fst e)) ` set c \<inter> (\<lambda>e. func (fst e)) ` set (concat cs) = {}"
    by blast
  with d1 d2 show ?case by (simp add: image_Un)
qed

lemma wf_distinct_hashes:
  assumes "\<forall>i < length bs. chain_ok func nb i (bs ! i)"
  shows "distinct (map (\<lambda>e. func (fst e)) (concat bs))"
  using distinct_hashes_offset [of bs func nb 0] assms by simp

subsection \<open>The rehash loop\<close>

lemma fold_nth_concat:
  "fold (\<lambda>i acc. fold g (bs ! i) acc) [0..<length bs] a = fold g (concat bs) a"
proof -
  have "fold (\<lambda>i acc. fold g (bs ! i) acc) [0..<length bs] a =
        fold (fold g) (map ((!) bs) [0..<length bs]) a"
    by (simp add: fold_map comp_def)
  also have "\<dots> = fold (fold g) bs a" by (simp add: map_nth)
  also have "\<dots> = fold g (concat bs) a" by (induction bs arbitrary: a) simp_all
  finally show ?thesis .
qed

lemma rehash_entry_wf:
  assumes pr: "list_ex (\<lambda>p. p = nb) primes"
      and nb: "nb = scast n"
      and len: "length bs = unat nb"
      and ok: "\<forall>i < length bs. chain_ok func nb i (bs ! i)"
      and new: "func (fst e) \<notin> (\<lambda>e. func (fst e)) ` set (concat bs)"
  shows "length (rehash_entry func n e bs) = length bs"
    and "\<forall>i < length bs. chain_ok func nb i (rehash_entry func n e bs ! i)"
    and "set (concat (rehash_entry func n e bs)) = insert e (set (concat bs))"
    and "length (concat (rehash_entry func n e bs)) = Suc (length (concat bs))"
proof -
  define h where "h = func (fst e)"
  define b where "b = bucket_of h nb"
  define chain where "chain = bs ! b"
  define pos where "pos = find_previous_entry_for_key func chain h"
  define chain' where "chain' = take pos chain @ e # drop pos chain"
  have re: "rehash_entry func n e bs = bs[b := chain']"
    by (simp add: rehash_entry_def Let_def h_def b_def chain_def pos_def chain'_def nb)
  have b: "b < length bs"
    unfolding b_def using bucket_of_less [OF pr] len by simp
  have none: "chain_lookup func chain h = None"
    unfolding chain_def b_def using wf_lookup_None_iff [OF pr len ok, of h] new h_def by simp
  have cok: "chain_ok func nb b chain"
    using ok b chain_def by simp
  have e_eq: "e = (fst e, snd e)" by simp
  have "sorted_wrt (<) (map (\<lambda>e. func (fst e))
          (take (find_previous_entry_for_key func chain (func (fst e))) chain @
           (fst e, snd e) # drop (find_previous_entry_for_key func chain (func (fst e))) chain))"
    by (rule sorted_splice) (use cok none in \<open>simp_all add: chain_ok_iff h_def\<close>)
  then have s': "sorted_wrt (<) (map (\<lambda>e. func (fst e)) chain')"
    by (simp add: chain'_def pos_def h_def)
  have "\<forall>x \<in> set chain'. bucket_of (func (fst x)) nb = b"
    using cok by (auto simp add: chain'_def chain_ok_iff b_def h_def dest: in_set_takeD in_set_dropD)
  with s' have cok': "chain_ok func nb b chain'" by (simp add: chain_ok_iff)
  show "length (rehash_entry func n e bs) = length bs" by (simp add: re)
  show "\<forall>i < length bs. chain_ok func nb i (rehash_entry func n e bs ! i)"
    using ok cok' b by (simp add: re nth_list_update)
  have sc: "set chain' = insert e (set (bs ! b))"
    unfolding chain'_def chain_def [symmetric]
    by (metis append_take_drop_id list.simps(15) set_append Un_insert_right)
  show "set (concat (rehash_entry func n e bs)) = insert e (set (concat bs))"
    unfolding re by (rule set_concat_update [OF b sc])
  have "length chain' = Suc (length (bs ! b))"
    by (simp add: chain'_def chain_def)
  with length_concat_update [OF b, of chain']
  show "length (concat (rehash_entry func n e bs)) = Suc (length (concat bs))"
    by (simp add: re)
qed

lemma rehash_fold_wf:
  assumes pr: "list_ex (\<lambda>p. p = nb) primes"
      and nb: "nb = scast n"
  shows "length bs = unat nb \<Longrightarrow>
         \<forall>i < length bs. chain_ok func nb i (bs ! i) \<Longrightarrow>
         distinct (map (\<lambda>e. func (fst e)) es) \<Longrightarrow>
         (\<lambda>e. func (fst e)) ` set es \<inter> (\<lambda>e. func (fst e)) ` set (concat bs) = {} \<Longrightarrow>
         length (fold (rehash_entry func n) es bs) = length bs \<and>
         (\<forall>i < length bs. chain_ok func nb i (fold (rehash_entry func n) es bs ! i)) \<and>
         set (concat (fold (rehash_entry func n) es bs)) = set es \<union> set (concat bs) \<and>
         length (concat (fold (rehash_entry func n) es bs)) = length es + length (concat bs)"
proof (induction es arbitrary: bs)
  case Nil
  then show ?case by simp
next
  case (Cons e es)
  have new: "func (fst e) \<notin> (\<lambda>e. func (fst e)) ` set (concat bs)"
    using Cons.prems(4) by auto
  note step = rehash_entry_wf [OF pr nb Cons.prems(1) Cons.prems(2) new]
  let ?bs = "rehash_entry func n e bs"
  have l: "length ?bs = unat nb" using step(1) Cons.prems(1) by simp
  have o: "\<forall>i < length ?bs. chain_ok func nb i (?bs ! i)" using step(1,2) by simp
  have d: "distinct (map (\<lambda>e. func (fst e)) es)" using Cons.prems(3) by simp
  have dj: "(\<lambda>e. func (fst e)) ` set es \<inter> (\<lambda>e. func (fst e)) ` set (concat ?bs) = {}"
    unfolding step(3) using Cons.prems(3,4) by auto
  from Cons.IH [OF l o d dj] show ?case
    by (simp add: step(1) step(3) step(4) del: set_concat)
qed

subsection \<open>Resize keeps the invariant, the entries and every lookup\<close>

lemma concat_replicate_Nil: "concat (replicate m []) = []"
  by (induction m) simp_all

lemma resize_hash_function [simp]:
  "hash_function (hash_table_resize ok ht) = hash_function ht"
  by (simp add: hash_table_resize_def Let_def)

lemma resize_size [simp]: "size_ht (hash_table_resize ok ht) = size_ht ht"
  by (simp add: hash_table_resize_def Let_def)

lemma resize_load_factor [simp]: "load_factor (hash_table_resize ok ht) = load_factor ht"
  by (simp add: hash_table_resize_def Let_def)

text \<open>What the rehash builds from a table that satisfies the invariant.\<close>

lemma rehash_result:
  assumes inv: "ht_inv ht"
      and nxt: "get_next_prime_number (ucast (no_buckets ht)) \<noteq> - 1"
  defines "n \<equiv> get_next_prime_number (ucast (no_buckets ht))"
  defines "bs' \<equiv> fold (\<lambda>i buckets_new. fold (rehash_entry (hash_function ht) n)
                                            (buckets ht ! i) buckets_new)
                      [0..<nat (sint (ucast (no_buckets ht) :: c_int))]
                      (replicate (unat (scast n :: size_t)) [])"
  shows "list_ex (\<lambda>p. p = (scast n :: size_t)) primes"
    and "length bs' = unat (scast n :: size_t)"
    and "\<forall>i < length bs'. chain_ok (hash_function ht) (scast n) i (bs' ! i)"
    and "set (concat bs') = set (concat (buckets ht))"
    and "length (concat bs') = length (concat (buckets ht))"
proof -
  from inv have pr: "list_ex (\<lambda>p. p = no_buckets ht) primes"
    and len: "length (buckets ht) = unat (no_buckets ht)"
    and ok: "\<forall>i < length (buckets ht). chain_ok (hash_function ht) (no_buckets ht) i (buckets ht ! i)"
    by (simp_all add: ht_inv_iff)
  show pr': "list_ex (\<lambda>p. p = (scast n :: size_t)) primes"
    unfolding n_def using pr nxt by (rule next_prime_ok)
  have "nat (sint (ucast (no_buckets ht) :: c_int)) = length (buckets ht)"
    using narrow_prime [OF pr] len by simp
  then have bs': "bs' = fold (rehash_entry (hash_function ht) n) (concat (buckets ht))
                          (replicate (unat (scast n :: size_t)) [])"
    unfolding bs'_def by (simp only: fold_nth_concat)
  have d: "distinct (map (\<lambda>e. hash_function ht (fst e)) (concat (buckets ht)))"
    using ok by (rule wf_distinct_hashes)
  have "length (fold (rehash_entry (hash_function ht) n) (concat (buckets ht))
                  (replicate (unat (scast n :: size_t)) [])) =
          length (replicate (unat (scast n :: size_t)) ([] :: 'a entry list)) \<and>
        (\<forall>i < length (replicate (unat (scast n :: size_t)) ([] :: 'a entry list)).
            chain_ok (hash_function ht) (scast n) i
              (fold (rehash_entry (hash_function ht) n) (concat (buckets ht))
                  (replicate (unat (scast n :: size_t)) []) ! i)) \<and>
        set (concat (fold (rehash_entry (hash_function ht) n) (concat (buckets ht))
                  (replicate (unat (scast n :: size_t)) []))) =
          set (concat (buckets ht)) \<union>
          set (concat (replicate (unat (scast n :: size_t)) ([] :: 'a entry list))) \<and>
        length (concat (fold (rehash_entry (hash_function ht) n) (concat (buckets ht))
                  (replicate (unat (scast n :: size_t)) []))) =
          length (concat (buckets ht)) +
          length (concat (replicate (unat (scast n :: size_t)) ([] :: 'a entry list)))"
    by (rule rehash_fold_wf [OF pr' refl _ _ d])
       (simp_all add: chain_ok_Nil concat_replicate_Nil del: set_concat)
  then show "length bs' = unat (scast n :: size_t)"
    and "\<forall>i < length bs'. chain_ok (hash_function ht) (scast n) i (bs' ! i)"
    and "set (concat bs') = set (concat (buckets ht))"
    and "length (concat bs') = length (concat (buckets ht))"
    unfolding bs' by (simp_all add: concat_replicate_Nil del: set_concat)
qed

lemma resize_inv:
  assumes "ht_inv ht"
  shows "ht_inv (hash_table_resize ok ht)"
proof (cases "hash_table_resize ok ht = ht")
  case True
  with assms show ?thesis by simp
next
  case False
  then have nxt: "get_next_prime_number (ucast (no_buckets ht)) \<noteq> - 1"
    by (auto simp add: hash_table_resize_def Let_def split: if_splits)
  note r = rehash_result [OF assms nxt]
  from False have eq: "hash_table_resize ok ht =
      ht\<lparr>buckets := fold (\<lambda>i buckets_new. fold (rehash_entry (hash_function ht)
                              (get_next_prime_number (ucast (no_buckets ht))))
                              (buckets ht ! i) buckets_new)
                      [0..<nat (sint (ucast (no_buckets ht) :: c_int))]
                      (replicate (unat (scast (get_next_prime_number (ucast (no_buckets ht))) :: size_t)) []),
         no_buckets := scast (get_next_prime_number (ucast (no_buckets ht)))\<rparr>"
    by (auto simp add: hash_table_resize_def Let_def split: if_splits)
  from assms have sz: "size_ht ht = of_nat (length (concat (buckets ht)))"
    by (simp add: ht_inv_iff)
  show ?thesis
    unfolding ht_inv_iff eq using r(1) r(2) r(3) r(5) sz by simp
qed

lemma resize_entries:
  assumes "ht_inv ht"
  shows "set (concat (buckets (hash_table_resize ok ht))) = set (concat (buckets ht))"
proof (cases "hash_table_resize ok ht = ht")
  case True
  then show ?thesis by simp
next
  case False
  then have nxt: "get_next_prime_number (ucast (no_buckets ht)) \<noteq> - 1"
    by (auto simp add: hash_table_resize_def Let_def split: if_splits)
  note r = rehash_result [OF assms nxt]
  from False have eq: "buckets (hash_table_resize ok ht) =
      fold (\<lambda>i buckets_new. fold (rehash_entry (hash_function ht)
                              (get_next_prime_number (ucast (no_buckets ht))))
                              (buckets ht ! i) buckets_new)
                      [0..<nat (sint (ucast (no_buckets ht) :: c_int))]
                      (replicate (unat (scast (get_next_prime_number (ucast (no_buckets ht))) :: size_t)) [])"
    by (auto simp add: hash_table_resize_def Let_def split: if_splits)
  show ?thesis unfolding eq by (rule r(4))
qed

lemma inv_lookup_iff:
  assumes "ht_inv ht"
  shows "hash_table_lookup ht key = Some v \<longleftrightarrow>
         (\<exists>k. (k, v) \<in> set (concat (buckets ht)) \<and> hash_function ht k = hash_function ht key)"
  using assms unfolding hash_table_lookup_def Let_def ht_inv_iff
  by (intro wf_lookup_iff) simp_all

lemma inv_lookup_None_iff:
  assumes "ht_inv ht"
  shows "hash_table_lookup ht key = None \<longleftrightarrow>
         hash_function ht key \<notin> (\<lambda>e. hash_function ht (fst e)) ` set (concat (buckets ht))"
  using assms unfolding hash_table_lookup_def Let_def ht_inv_iff
  by (intro wf_lookup_None_iff) simp_all

lemma resize_lookup:
  assumes "ht_inv ht"
  shows "hash_table_lookup (hash_table_resize ok ht) key = hash_table_lookup ht key"
proof -
  have "\<And>v. hash_table_lookup (hash_table_resize ok ht) key = Some v \<longleftrightarrow>
            hash_table_lookup ht key = Some v"
    by (simp only: inv_lookup_iff [OF assms] inv_lookup_iff [OF resize_inv [OF assms]]
          resize_entries [OF assms] resize_hash_function)
  then show ?thesis by (metis not_Some_eq)
qed

subsection \<open>Insert\<close>

lemma hit_iff:
  assumes "sorted_wrt (<) (map (\<lambda>e. func (fst e)) chain)"
  shows "find_previous_entry_for_key func chain h < length chain \<and>
         func (fst (chain ! find_previous_entry_for_key func chain h)) = h \<longleftrightarrow>
         chain_lookup func chain h \<noteq> None"
proof
  assume a: "find_previous_entry_for_key func chain h < length chain \<and>
         func (fst (chain ! find_previous_entry_for_key func chain h)) = h"
  then have "chain ! find_previous_entry_for_key func chain h \<in> set chain"
    by (intro nth_mem) (rule conjunct1)
  then have "func (fst (chain ! find_previous_entry_for_key func chain h))
               \<in> (\<lambda>e. func (fst e)) ` set chain"
    by (rule imageI)
  with a have "h \<in> (\<lambda>e. func (fst e)) ` set chain" by simp
  then show "chain_lookup func chain h \<noteq> None" by (simp add: chain_lookup_None_iff)
next
  assume "chain_lookup func chain h \<noteq> None"
  then obtain v where "chain_lookup func chain h = Some v" by (cases "chain_lookup func chain h") simp_all
  from find_previous_hit [OF assms this]
  show "find_previous_entry_for_key func chain h < length chain \<and>
         func (fst (chain ! find_previous_entry_for_key func chain h)) = h"
    by (intro conjI) (erule conjE, assumption, (erule conjE)+, assumption)
qed

text \<open>
  The two ways an insert ends on a table that satisfies the invariant: the hash is
  present and its entry gets the value, or it is absent and a new entry is spliced in
  (when its allocation succeeds).
\<close>

lemma insert_present:
  fixes resize_ok :: bool
  assumes inv: "ht_inv ht" and pres: "hash_table_lookup ht key \<noteq> None"
  defines "t \<equiv> hash_table_resize resize_ok ht"
  defines "b \<equiv> bucket_of (hash_function ht key) (no_buckets t)"
  defines "pos \<equiv> find_previous_entry_for_key (hash_function ht) (buckets t ! b) (hash_function ht key)"
  shows "hash_table_insert resize_ok entry_ok ht key val =
         t\<lparr>buckets := (buckets t)[b := (buckets t ! b)[pos := (fst (buckets t ! b ! pos), val)]]\<rparr>"
    and "pos < length (buckets t ! b)"
    and "hash_function ht (fst (buckets t ! b ! pos)) = hash_function ht key"
proof -
  have tinv: "ht_inv t" unfolding t_def using inv by (rule resize_inv)
  have "hash_table_lookup t key \<noteq> None"
    unfolding t_def using pres by (simp add: resize_lookup [OF inv])
  then have look: "chain_lookup (hash_function ht) (buckets t ! b) (hash_function ht key) \<noteq> None"
    by (simp add: hash_table_lookup_def Let_def b_def t_def)
  have blt: "b < length (buckets t)"
    unfolding b_def using tinv bucket_of_less [of "no_buckets t"] by (simp add: ht_inv_iff)
  with tinv have "chain_ok (hash_function t) (no_buckets t) b (buckets t ! b)"
    by (simp add: ht_inv_iff)
  then have srt: "sorted_wrt (<) (map (\<lambda>e. hash_function ht (fst e)) (buckets t ! b))"
    by (simp add: chain_ok_iff t_def)
  from hit_iff [OF srt, of "hash_function ht key"] look
  show hit1: "pos < length (buckets t ! b)"
    and hit2: "hash_function ht (fst (buckets t ! b ! pos)) = hash_function ht key"
    by (simp_all add: pos_def)
  then show "hash_table_insert resize_ok entry_ok ht key val =
         t\<lparr>buckets := (buckets t)[b := (buckets t ! b)[pos := (fst (buckets t ! b ! pos), val)]]\<rparr>"
    by (simp add: hash_table_insert_def Let_def t_def b_def pos_def)
qed

lemma insert_absent:
  fixes resize_ok :: bool
  assumes inv: "ht_inv ht" and abs: "hash_table_lookup ht key = None"
  defines "t \<equiv> hash_table_resize resize_ok ht"
  defines "b \<equiv> bucket_of (hash_function ht key) (no_buckets t)"
  defines "pos \<equiv> find_previous_entry_for_key (hash_function ht) (buckets t ! b) (hash_function ht key)"
  shows "hash_table_insert resize_ok entry_ok ht key val =
         (if entry_ok
          then t\<lparr>buckets := (buckets t)[b := take pos (buckets t ! b) @ (key, val) # drop pos (buckets t ! b)],
                 size_ht := size_ht t + 1\<rparr>
          else t)"
    and "chain_lookup (hash_function ht) (buckets t ! b) (hash_function ht key) = None"
proof -
  have tinv: "ht_inv t" unfolding t_def using inv by (rule resize_inv)
  have "hash_table_lookup t key = None"
    unfolding t_def using abs by (simp add: resize_lookup [OF inv])
  then show look: "chain_lookup (hash_function ht) (buckets t ! b) (hash_function ht key) = None"
    by (simp add: hash_table_lookup_def Let_def b_def t_def)
  have blt: "b < length (buckets t)"
    unfolding b_def using tinv bucket_of_less [of "no_buckets t"] by (simp add: ht_inv_iff)
  with tinv have "chain_ok (hash_function t) (no_buckets t) b (buckets t ! b)"
    by (simp add: ht_inv_iff)
  then have srt: "sorted_wrt (<) (map (\<lambda>e. hash_function ht (fst e)) (buckets t ! b))"
    by (simp add: chain_ok_iff t_def)
  from hit_iff [OF srt, of "hash_function ht key"] look
  have "\<not> (pos < length (buckets t ! b) \<and>
          hash_function ht (fst (buckets t ! b ! pos)) = hash_function ht key)"
    by (simp add: pos_def)
  then show "hash_table_insert resize_ok entry_ok ht key val =
         (if entry_ok
          then t\<lparr>buckets := (buckets t)[b := take pos (buckets t ! b) @ (key, val) # drop pos (buckets t ! b)],
                 size_ht := size_ht t + 1\<rparr>
          else t)"
    by (auto simp add: hash_table_insert_def Let_def t_def b_def pos_def)
qed

lemma insert_hash_function [simp]:
  "hash_function (hash_table_insert resize_ok entry_ok ht key val) = hash_function ht"
  by (simp add: hash_table_insert_def Let_def)

lemma insert_no_buckets:
  "no_buckets (hash_table_insert resize_ok entry_ok ht key val) =
   no_buckets (hash_table_resize resize_ok ht)"
  by (simp add: hash_table_insert_def Let_def)

lemma insert_load_factor [simp]:
  "load_factor (hash_table_insert resize_ok entry_ok ht key val) = load_factor ht"
  by (simp add: hash_table_insert_def Let_def)

lemma insert_size:
  assumes "ht_inv ht"
  shows "size_ht (hash_table_insert resize_ok entry_ok ht key val) =
         (if hash_table_lookup ht key = None \<and> entry_ok then size_ht ht + 1 else size_ht ht)"
proof (cases "hash_table_lookup ht key = None")
  case True
  then show ?thesis by (simp add: insert_absent(1) [OF assms True])
next
  case False
  then show ?thesis by (simp add: insert_present(1) [OF assms False])
qed

lemma map_hash_update:
  "n < length chain \<Longrightarrow>
   map (\<lambda>e. func (fst e)) (chain[n := (fst (chain ! n), val)]) = map (\<lambda>e. func (fst e)) chain"
  by (simp add: map_update list_update_same_conv)

lemma chain_ok_update:
  assumes "chain_ok func nb i chain" and "n < length chain"
  shows "chain_ok func nb i (chain[n := (fst (chain ! n), val)])"
proof -
  have "\<forall>e \<in> set (chain[n := (fst (chain ! n), val)]). bucket_of (func (fst e)) nb = i"
  proof
    fix e assume "e \<in> set (chain[n := (fst (chain ! n), val)])"
    then have "e \<in> insert (fst (chain ! n), val) (set chain)"
      using set_update_subset_insert by fastforce
    moreover have "chain ! n \<in> set chain" using assms(2) by simp
    ultimately show "bucket_of (func (fst e)) nb = i"
      using assms(1) by (auto simp add: chain_ok_iff)
  qed
  then show ?thesis
    using assms by (simp add: chain_ok_iff map_hash_update)
qed

lemma chain_ok_splice:
  assumes "chain_ok func nb i chain"
      and "chain_lookup func chain (func key) = None"
      and "bucket_of (func key) nb = i"
  shows "chain_ok func nb i
           (take (find_previous_entry_for_key func chain (func key)) chain @
            (key, val) # drop (find_previous_entry_for_key func chain (func key)) chain)"
proof -
  have "\<forall>e \<in> set (take (find_previous_entry_for_key func chain (func key)) chain @
            (key, val) # drop (find_previous_entry_for_key func chain (func key)) chain).
          bucket_of (func (fst e)) nb = i"
    using assms(1,3) by (auto simp add: chain_ok_iff dest: in_set_takeD in_set_dropD)
  moreover have "sorted_wrt (<) (map (\<lambda>e. func (fst e))
           (take (find_previous_entry_for_key func chain (func key)) chain @
            (key, val) # drop (find_previous_entry_for_key func chain (func key)) chain))"
    by (rule sorted_splice) (use assms(1,2) in \<open>simp_all add: chain_ok_iff\<close>)
  ultimately show ?thesis by (simp only: chain_ok_iff)
qed

text \<open>Replacing one chain of a well-formed table by another chain of the same bucket.\<close>

lemma inv_update_chain:
  assumes inv: "ht_inv t"
      and b: "b < length (buckets t)"
      and ok: "chain_ok (hash_function t) (no_buckets t) b chain'"
      and sz: "sz = of_nat (length (concat ((buckets t)[b := chain'])))"
  shows "ht_inv (t\<lparr>buckets := (buckets t)[b := chain'], size_ht := sz\<rparr>)"
  using assms by (simp add: ht_inv_iff nth_list_update)

lemma insert_inv:
  assumes inv: "ht_inv ht"
  shows "ht_inv (hash_table_insert resize_ok entry_ok ht key val)"
proof -
  define t where "t = hash_table_resize resize_ok ht"
  define b where "b = bucket_of (hash_function ht key) (no_buckets t)"
  define chain where "chain = buckets t ! b"
  define pos where "pos = find_previous_entry_for_key (hash_function ht) chain (hash_function ht key)"
  have tinv: "ht_inv t" unfolding t_def using inv by (rule resize_inv)
  have hf: "hash_function t = hash_function ht" by (simp add: t_def)
  have blt: "b < length (buckets t)"
    unfolding b_def using tinv bucket_of_less [of "no_buckets t"] by (simp add: ht_inv_iff)
  with tinv have cok: "chain_ok (hash_function ht) (no_buckets t) b chain"
    by (simp add: ht_inv_iff chain_def hf)
  from tinv have sz: "size_ht t = of_nat (length (concat (buckets t)))"
    by (simp add: ht_inv_iff)
  show ?thesis
  proof (cases "hash_table_lookup ht key = None")
    case False
    note p1 = insert_present(1) [where resize_ok = resize_ok and entry_ok = entry_ok and val = val,
                OF inv False, folded t_def, folded b_def, folded chain_def, folded pos_def]
    note p2 = insert_present(2) [where resize_ok = resize_ok,
                OF inv False, folded t_def, folded b_def, folded chain_def, folded pos_def]
    have "chain_ok (hash_function t) (no_buckets t) b (chain[pos := (fst (chain ! pos), val)])"
      unfolding hf using cok p2 by (rule chain_ok_update)
    moreover have "length (concat ((buckets t)[b := chain[pos := (fst (chain ! pos), val)]])) =
                   length (concat (buckets t))"
      using length_concat_update [OF blt, of "chain[pos := (fst (chain ! pos), val)]"]
      by (simp add: chain_def)
    ultimately have "ht_inv (t\<lparr>buckets := (buckets t)[b := chain[pos := (fst (chain ! pos), val)]],
                               size_ht := size_ht t\<rparr>)"
      using tinv blt sz by (intro inv_update_chain) simp_all
    then show ?thesis by (simp add: p1)
  next
    case True
    note a1 = insert_absent(1) [where resize_ok = resize_ok and entry_ok = entry_ok and val = val,
                OF inv True, folded t_def, folded b_def, folded chain_def, folded pos_def]
    note a2 = insert_absent(2) [where resize_ok = resize_ok,
                OF inv True, folded t_def, folded b_def, folded chain_def, folded pos_def]
    show ?thesis
    proof (cases entry_ok)
      case False
      with a1 tinv show ?thesis by simp
    next
      case True
      have "chain_ok (hash_function ht) (no_buckets t) b
              (take (find_previous_entry_for_key (hash_function ht) chain (hash_function ht key)) chain @
               (key, val) #
               drop (find_previous_entry_for_key (hash_function ht) chain (hash_function ht key)) chain)"
        using cok a2 by (rule chain_ok_splice) (simp add: b_def)
      then have c': "chain_ok (hash_function t) (no_buckets t) b
                       (take pos chain @ (key, val) # drop pos chain)"
        by (simp add: pos_def hf)
      have "length (concat ((buckets t)[b := take pos chain @ (key, val) # drop pos chain])) =
            Suc (length (concat (buckets t)))"
        using length_concat_update [OF blt, of "take pos chain @ (key, val) # drop pos chain"]
        by (simp add: chain_def)
      then have "size_ht t + 1 =
            of_nat (length (concat ((buckets t)[b := take pos chain @ (key, val) # drop pos chain])))"
        using sz by simp
      with tinv blt c'
      have "ht_inv (t\<lparr>buckets := (buckets t)[b := take pos chain @ (key, val) # drop pos chain],
                       size_ht := size_ht t + 1\<rparr>)"
        by (intro inv_update_chain)
      moreover from a1 True
      have "hash_table_insert resize_ok entry_ok ht key val =
            t\<lparr>buckets := (buckets t)[b := take pos chain @ (key, val) # drop pos chain],
              size_ht := size_ht t + 1\<rparr>"
        by simp
      ultimately show ?thesis by simp
    qed
  qed
qed

lemma lookup_update_chain:
  assumes "b < length (buckets t)"
  shows "hash_table_lookup (t\<lparr>buckets := (buckets t)[b := chain'], size_ht := sz\<rparr>) key =
         (if bucket_of (hash_function t key) (no_buckets t) = b
          then chain_lookup (hash_function t) chain' (hash_function t key)
          else hash_table_lookup t key)"
  using assms by (simp add: hash_table_lookup_def Let_def)

lemma lookup_update_chain':
  assumes "b < length (buckets t)"
  shows "hash_table_lookup (t\<lparr>buckets := (buckets t)[b := chain']\<rparr>) key =
         (if bucket_of (hash_function t key) (no_buckets t) = b
          then chain_lookup (hash_function t) chain' (hash_function t key)
          else hash_table_lookup t key)"
  using assms by (simp add: hash_table_lookup_def Let_def)

text \<open>The value stored by an insert is the one the next lookup of the key returns.\<close>

lemma lookup_insert_same:
  assumes inv: "ht_inv ht"
      and stored: "entry_ok \<or> hash_table_lookup ht key \<noteq> None"
  shows "hash_table_lookup (hash_table_insert resize_ok entry_ok ht key val) key = Some val"
proof -
  define t where "t = hash_table_resize resize_ok ht"
  define b where "b = bucket_of (hash_function ht key) (no_buckets t)"
  define chain where "chain = buckets t ! b"
  define pos where "pos = find_previous_entry_for_key (hash_function ht) chain (hash_function ht key)"
  have tinv: "ht_inv t" unfolding t_def using inv by (rule resize_inv)
  have hf: "hash_function t = hash_function ht" by (simp add: t_def)
  have blt: "b < length (buckets t)"
    unfolding b_def using tinv bucket_of_less [of "no_buckets t"] by (simp add: ht_inv_iff)
  show ?thesis
  proof (cases "hash_table_lookup ht key = None")
    case False
    note p1 = insert_present(1) [where resize_ok = resize_ok and entry_ok = entry_ok and val = val,
                OF inv False, folded t_def, folded b_def, folded chain_def, folded pos_def]
    note p2 = insert_present(2) [where resize_ok = resize_ok,
                OF inv False, folded t_def, folded b_def, folded chain_def, folded pos_def]
    note p3 = insert_present(3) [where resize_ok = resize_ok,
                OF inv False, folded t_def, folded b_def, folded chain_def, folded pos_def]
    have "chain_lookup (hash_function ht)
            (chain[find_previous_entry_for_key (hash_function ht) chain (hash_function ht key) :=
               (fst (chain ! find_previous_entry_for_key (hash_function ht) chain (hash_function ht key)), val)])
            (hash_function ht key) = Some val"
      by (rule chain_lookup_update_same) (use p2 p3 in \<open>simp_all add: pos_def\<close>)
    then have "chain_lookup (hash_function ht) (chain[pos := (fst (chain ! pos), val)])
                 (hash_function ht key) = Some val"
      by (simp add: pos_def)
    then show ?thesis
      unfolding p1 using blt by (simp add: lookup_update_chain' hf b_def)
  next
    case True
    with stored have eo: entry_ok by simp
    note a1 = insert_absent(1) [where resize_ok = resize_ok and entry_ok = entry_ok and val = val,
                OF inv True, folded t_def, folded b_def, folded chain_def, folded pos_def]
    from a1 eo
    have eq: "hash_table_insert resize_ok entry_ok ht key val =
            t\<lparr>buckets := (buckets t)[b := take pos chain @ (key, val) # drop pos chain],
              size_ht := size_ht t + 1\<rparr>"
      by simp
    have "chain_lookup (hash_function ht) (take pos chain @ (key, val) # drop pos chain)
            (hash_function ht key) = Some val"
      unfolding pos_def by (rule chain_lookup_splice_same)
    then show ?thesis
      unfolding eq using blt by (simp add: lookup_update_chain hf b_def)
  qed
qed

text \<open>An insert leaves the lookups of all other hashes as they were.\<close>

lemma lookup_insert_other:
  assumes inv: "ht_inv ht"
      and ne: "hash_function ht key' \<noteq> hash_function ht key"
  shows "hash_table_lookup (hash_table_insert resize_ok entry_ok ht key val) key' =
         hash_table_lookup ht key'"
proof -
  define t where "t = hash_table_resize resize_ok ht"
  define b where "b = bucket_of (hash_function ht key) (no_buckets t)"
  define chain where "chain = buckets t ! b"
  define pos where "pos = find_previous_entry_for_key (hash_function ht) chain (hash_function ht key)"
  have tinv: "ht_inv t" unfolding t_def using inv by (rule resize_inv)
  have hf: "hash_function t = hash_function ht" by (simp add: t_def)
  have blt: "b < length (buckets t)"
    unfolding b_def using tinv bucket_of_less [of "no_buckets t"] by (simp add: ht_inv_iff)
  have tl: "hash_table_lookup t key' = hash_table_lookup ht key'"
    unfolding t_def using inv by (rule resize_lookup)
  have same: "hash_table_lookup t key' =
              chain_lookup (hash_function ht) chain (hash_function ht key')"
    if "bucket_of (hash_function ht key') (no_buckets t) = b"
    using that by (simp add: hash_table_lookup_def Let_def hf chain_def)
  show ?thesis
  proof (cases "hash_table_lookup ht key = None")
    case False
    note p1 = insert_present(1) [where resize_ok = resize_ok and entry_ok = entry_ok and val = val,
                OF inv False, folded t_def, folded b_def, folded chain_def, folded pos_def]
    note p2 = insert_present(2) [where resize_ok = resize_ok,
                OF inv False, folded t_def, folded b_def, folded chain_def, folded pos_def]
    note p3 = insert_present(3) [where resize_ok = resize_ok,
                OF inv False, folded t_def, folded b_def, folded chain_def, folded pos_def]
    have "chain_lookup (hash_function ht) (chain[pos := (fst (chain ! pos), val)])
            (hash_function ht key') =
          chain_lookup (hash_function ht) chain (hash_function ht key')"
      by (rule chain_lookup_update_other') (use p2 p3 ne in simp_all)
    then show ?thesis
      unfolding p1 using blt same tl by (simp add: lookup_update_chain' hf)
  next
    case True
    note a1 = insert_absent(1) [where resize_ok = resize_ok and entry_ok = entry_ok and val = val,
                OF inv True, folded t_def, folded b_def, folded chain_def, folded pos_def]
    have "chain_lookup (hash_function ht) (take pos chain @ (key, val) # drop pos chain)
            (hash_function ht key') =
          chain_lookup (hash_function ht) chain (hash_function ht key')"
      using ne by (rule chain_lookup_splice_other)
    then show ?thesis
      unfolding a1 using blt same tl by (simp add: lookup_update_chain hf)
  qed
qed

subsection \<open>Creation, remove, clear and apply\_to\_all keep the invariant\<close>

lemma widen_narrow_small:
  fixes w :: "64 word"
  assumes "unat w < 2 ^ 31"
  shows "(scast (ucast w :: 32 word) :: 64 word) = w"
proof -
  have u: "uint w < 2 ^ 31"
    using assms by (metis uint_nat of_nat_less_iff of_nat_numeral of_nat_power)
  have n: "- (2 ^ 31) \<le> uint w"
    by (rule order_trans [of _ 0]) simp_all
  have e: "uint (ucast w :: 32 word) = uint w"
    using u by (simp add: unsigned_ucast_eq take_bit_int_eq_self)
  have "signed_take_bit 31 (uint w) = uint w"
    by (rule signed_take_bit_int_eq_self) (use u n in simp_all)
  then have "sint (ucast w :: 32 word) = uint w"
    using e by (simp add: sint_uint)
  then have "(scast (ucast w :: 32 word) :: 64 word) = of_int (uint w)"
    by (simp only: scast_eq)
  then show ?thesis by simp
qed

lemma create_Table_iff:
  "hash_table_create_dynamic member_i table_ok buckets_ok nb lf func kf vf = Table ht \<longleftrightarrow>
     is_number_in_prime_library (ucast nb) \<and> \<not> float_le lf (Finite 0) \<and> table_ok \<and> buckets_ok \<and>
     unat nb < 2 ^ 31 \<and>
     ht = \<lparr>no_buckets = nb, load_factor = lf,
           hash_function = (case func of None \<Rightarrow> default_hash_function member_i | Some f \<Rightarrow> f),
           key_equiv = (case kf of None \<Rightarrow> default_key_equiv member_i | Some f \<Rightarrow> f),
           value_equiv = (case vf of None \<Rightarrow> default_value_equiv member_i | Some f \<Rightarrow> f),
           size_ht = 0, buckets = replicate (unat nb) []\<rparr>"
  by (auto simp add: hash_table_create_dynamic_def not_le)

lemma create_inv:
  assumes "hash_table_create_dynamic member_i table_ok buckets_ok nb lf func kf vf = Table ht"
  shows "ht_inv ht"
proof -
  from assms have lib: "is_number_in_prime_library (ucast nb)" and small: "unat nb < 2 ^ 31"
    and nbs: "no_buckets ht = nb" and bs: "buckets ht = replicate (unat nb) []"
    and sz: "size_ht ht = 0"
    by (simp_all add: create_Table_iff)
  from lib small have "list_ex (\<lambda>p. p = nb) primes"
    by (simp add: is_number_in_prime_library_def widen_narrow_small)
  then show ?thesis
    by (simp add: ht_inv_iff nbs bs sz chain_ok_Nil concat_replicate_Nil)
qed

lemma sorted_wrt_remove_nth:
  "sorted_wrt P xs \<Longrightarrow> sorted_wrt P (take n xs @ drop (Suc n) xs)"
proof (induction xs arbitrary: n)
  case Nil
  then show ?case by simp
next
  case (Cons x xs)
  then show ?case
    by (cases n) (auto dest: in_set_takeD in_set_dropD)
qed

lemma chain_ok_remove:
  assumes "chain_ok func nb i chain"
  shows "chain_ok func nb i (take n chain @ drop (Suc n) chain)"
proof -
  have "map (\<lambda>e. func (fst e)) (take n chain @ drop (Suc n) chain) =
        take n (map (\<lambda>e. func (fst e)) chain) @ drop (Suc n) (map (\<lambda>e. func (fst e)) chain)"
    by (simp add: take_map drop_map)
  then have "sorted_wrt (<) (map (\<lambda>e. func (fst e)) (take n chain @ drop (Suc n) chain))"
    using assms by (simp add: chain_ok_iff sorted_wrt_remove_nth del: map_append)
  moreover have "\<forall>e \<in> set (take n chain @ drop (Suc n) chain). bucket_of (func (fst e)) nb = i"
    using assms by (auto simp add: chain_ok_iff dest: in_set_takeD in_set_dropD)
  ultimately show ?thesis by (simp only: chain_ok_iff)
qed

lemma remove_absent:
  "hash_table_lookup ht key = None \<Longrightarrow> hash_table_remove ht key = (ht, None)"
  by (simp add: hash_table_remove_def Let_def)

lemma remove_inv:
  assumes inv: "ht_inv ht"
  shows "ht_inv (fst (hash_table_remove ht key))"
proof (cases "hash_table_lookup ht key")
  case None
  with inv show ?thesis by (simp add: remove_absent)
next
  case (Some r)
  define b where "b = bucket_of (hash_function ht key) (no_buckets ht)"
  define chain where "chain = buckets ht ! b"
  define pos where "pos = find_previous_entry_for_key (hash_function ht) chain (hash_function ht key)"
  have eq: "fst (hash_table_remove ht key) =
        ht\<lparr>buckets := (buckets ht)[b := take pos chain @ drop (Suc pos) chain],
           size_ht := size_ht ht - 1\<rparr>"
    using Some by (simp add: hash_table_remove_def Let_def b_def chain_def pos_def)
  have blt: "b < length (buckets ht)"
    unfolding b_def using inv bucket_of_less [of "no_buckets ht"] by (simp add: ht_inv_iff)
  with inv have cok: "chain_ok (hash_function ht) (no_buckets ht) b chain"
    by (simp add: ht_inv_iff chain_def)
  have "chain_lookup (hash_function ht) chain (hash_function ht key) \<noteq> None"
    using Some by (simp add: hash_table_lookup_def Let_def b_def chain_def)
  then have plt: "pos < length chain"
    unfolding pos_def by (rule find_previous_found)
  then have l: "Suc (length (take pos chain @ drop (Suc pos) chain)) = length chain"
    by simp
  have "length (concat ((buckets ht)[b := take pos chain @ drop (Suc pos) chain])) +
          length chain =
        length (concat (buckets ht)) + length (take pos chain @ drop (Suc pos) chain)"
    using length_concat_update [OF blt] by (simp only: chain_def)
  with l have "length (concat (buckets ht)) =
        Suc (length (concat ((buckets ht)[b := take pos chain @ drop (Suc pos) chain])))"
    by linarith
  moreover from inv have "size_ht ht = of_nat (length (concat (buckets ht)))"
    by (simp add: ht_inv_iff)
  ultimately have "size_ht ht - 1 =
        of_nat (length (concat ((buckets ht)[b := take pos chain @ drop (Suc pos) chain])))"
    by simp
  with inv blt chain_ok_remove [OF cok, of pos] show ?thesis
    unfolding eq by (intro inv_update_chain)
qed

lemma clear_bucket_inv:
  assumes inv: "ht_inv ht" and i: "i < length (buckets ht)"
  shows "ht_inv (clear_bucket i ht)"
proof -
  have "length (concat ((buckets ht)[i := []])) + length (buckets ht ! i) =
        length (concat (buckets ht))"
    using length_concat_update [OF i, of "[]"] by simp
  then have "of_nat (length (concat ((buckets ht)[i := []]))) + of_nat (length (buckets ht ! i)) =
        (of_nat (length (concat (buckets ht))) :: size_t)"
    by (metis of_nat_add)
  moreover from inv have "size_ht ht = of_nat (length (concat (buckets ht)))"
    by (simp add: ht_inv_iff)
  ultimately have "size_ht ht - of_nat (length (buckets ht ! i)) =
        of_nat (length (concat ((buckets ht)[i := []])))"
    by (metis add_diff_cancel_right')
  with inv i show ?thesis
    unfolding clear_bucket_def by (intro inv_update_chain) (simp_all add: chain_ok_Nil)
qed

lemma clear_bucket_length [simp]: "length (buckets (clear_bucket i ht)) = length (buckets ht)"
  by (simp add: clear_bucket_def)

lemma fold_clear_bucket_inv:
  "ht_inv ht \<Longrightarrow> \<forall>i \<in> set idx. i < length (buckets ht) \<Longrightarrow> ht_inv (fold clear_bucket idx ht)"
proof (induction idx arbitrary: ht)
  case Nil
  then show ?case by simp
next
  case (Cons i idx)
  then show ?case by (simp add: clear_bucket_inv)
qed

lemma clear_inv:
  assumes "ht_inv ht"
  shows "ht_inv (hash_table_clear ht)"
  unfolding hash_table_clear_def using assms
  by (intro fold_clear_bucket_inv) (simp_all add: ht_inv_iff)

lemma inv_overwrite_value:
  assumes inv: "ht_inv t"
  shows "ht_inv (t\<lparr>buckets := (buckets t)[b := (buckets t ! b)[j := (fst (buckets t ! b ! j), v)]]\<rparr>)"
proof (cases "b < length (buckets t) \<and> j < length (buckets t ! b)")
  case False
  then have "(buckets t)[b := (buckets t ! b)[j := (fst (buckets t ! b ! j), v)]] = buckets t"
    by (auto simp add: not_less list_update_beyond)
  with inv show ?thesis by simp
next
  case True
  then have blt: "b < length (buckets t)" and jlt: "j < length (buckets t ! b)" by simp_all
  from inv blt have "chain_ok (hash_function t) (no_buckets t) b (buckets t ! b)"
    by (simp add: ht_inv_iff)
  then have c: "chain_ok (hash_function t) (no_buckets t) b
                  ((buckets t ! b)[j := (fst (buckets t ! b ! j), v)])"
    using jlt by (rule chain_ok_update)
  have "length (concat ((buckets t)[b := (buckets t ! b)[j := (fst (buckets t ! b ! j), v)]])) =
        length (concat (buckets t))"
    using length_concat_update [OF blt, of "(buckets t ! b)[j := (fst (buckets t ! b ! j), v)]"]
    by simp
  moreover from inv have "size_ht t = of_nat (length (concat (buckets t)))"
    by (simp add: ht_inv_iff)
  ultimately have "ht_inv (t\<lparr>buckets := (buckets t)[b := (buckets t ! b)[j := (fst (buckets t ! b ! j), v)]],
                            size_ht := size_ht t\<rparr>)"
    using inv blt c by (intro inv_update_chain) simp_all
  then show ?thesis by simp
qed

lemma apply_step_inv:
  assumes "apply_step f x keys arr i (Inr t) = Inr t'" and "ht_inv t"
  shows "ht_inv t'"
  using assms
  by (auto simp add: apply_step_def Let_def inv_overwrite_value
        split: option.splits if_splits prod.splits)

lemma apply_step_Inl [simp]: "apply_step f x keys arr i (Inl flt) = Inl flt"
  by (simp add: apply_step_def)

lemma fold_apply_step_Inl [simp]: "fold (apply_step f x keys arr) idx (Inl flt) = Inl flt"
  by (induction idx) simp_all

lemma fold_apply_step_inv:
  "fold (apply_step f x keys arr) idx (Inr t) = Inr t' \<Longrightarrow> ht_inv t \<Longrightarrow> ht_inv t'"
proof (induction idx arbitrary: t)
  case Nil
  then show ?case by simp
next
  case (Cons i idx)
  show ?case
  proof (cases "apply_step f x keys arr i (Inr t)")
    case (Inl flt)
    with Cons.prems(1) show ?thesis by simp
  next
    case (Inr u)
    from Inr Cons.prems(2) have "ht_inv u" by (rule apply_step_inv)
    moreover from Cons.prems(1) Inr have "fold (apply_step f x keys arr) idx (Inr u) = Inr t'"
      by simp
    ultimately show ?thesis by (rule Cons.IH [rotated])
  qed
qed

lemma apply_to_all_inv:
  assumes "hash_table_apply_to_all calloc_ok ht f x = Inr ht'" and "ht_inv ht"
  shows "ht_inv ht'"
  using assms
  by (auto simp add: hash_table_apply_to_all_def Let_def split: sum.splits
        intro: fold_apply_step_inv)

text \<open>Every table a client can hold satisfies the invariant.\<close>

lemma reachable_inv: "reachable ht \<Longrightarrow> ht_inv ht"
proof (induction rule: reachable.induct)
  case (create member_i table_ok buckets_ok nb lf func kf vf ht)
  then show ?case by (rule create_inv)
next
  case (insert ht resize_ok entry_ok key val)
  from insert.IH show ?case by (rule insert_inv)
next
  case (remove ht key)
  from remove.IH show ?case by (rule remove_inv)
next
  case (clear ht)
  from clear.IH show ?case by (rule clear_inv)
next
  case (apply_to_all ht calloc_ok f x ht')
  from apply_to_all.hyps(2) apply_to_all.IH show ?case by (rule apply_to_all_inv)
qed

subsection \<open>The tables of the scenarios\<close>

text \<open>Evaluation of the float model on numerals.\<close>
lemma bit_length_0: "bit_length 0 = 0" by (simp add: bit_length.simps)
lemma bit_length_1: "bit_length 1 = 1" by (simp add: bit_length.simps)
lemma bit_length_Suc_0: "bit_length (Suc 0) = 1" by (simp add: bit_length.simps)
lemma bit_length_Bit0: "bit_length (numeral (num.Bit0 n)) = Suc (bit_length (numeral n))"
  by (subst bit_length.simps) simp
lemma bit_length_Bit1: "bit_length (numeral (num.Bit1 n)) = Suc (bit_length (numeral n))"
  by (subst bit_length.simps) simp

lemmas float_eval =
  current_load_def float_of_size_t_def binary32_round_def floor_log2_def
  round_half_even_div_def Let_def
  bit_length_0 bit_length_1 bit_length_Suc_0 bit_length_Bit0 bit_length_Bit1

lemma create_int_table_17:
  "hash_table_create id True True None None None = Table int_table_17"
  by (simp add: hash_table_create_def hash_table_create_dynamic_def int_table_17_def
        is_number_in_prime_library_def primes_def)

lemma reachable_int_table_17: "reachable int_table_17"
  using create_int_table_17 unfolding hash_table_create_def by (rule reachable.create)

lemma create_colliding_table:
  "hash_table_create_dynamic id True True 16381 (Finite (3 / 4)) (Some (\<lambda>key. 7)) None None =
   Table colliding_table"
  by (simp add: hash_table_create_dynamic_def colliding_table_def
        is_number_in_prime_library_def primes_def)

lemma reachable_colliding_table: "reachable colliding_table"
  using create_colliding_table by (rule reachable.create)

lemma lookup_replicate_Nil:
  assumes "list_ex (\<lambda>p. p = no_buckets ht) primes" and "buckets ht = replicate (unat (no_buckets ht)) []"
  shows "hash_table_lookup ht key = None"
  using assms bucket_of_less [OF assms(1), of "hash_function ht key"]
  by (simp add: hash_table_lookup_def Let_def)

lemma lookup_int_table_17: "hash_table_lookup int_table_17 key = None"
  by (rule lookup_replicate_Nil) (simp_all add: int_table_17_def primes_def)

lemma lookup_colliding_table: "hash_table_lookup colliding_table key = None"
  by (rule lookup_replicate_Nil) (simp_all add: colliding_table_def primes_def)

section \<open>The claims\<close>

subsection \<open>Lookup\<close>

lemma chain_lookup_find:
  "chain_lookup func chain h = map_option snd (find (\<lambda>e. func (fst e) = h) chain)"
  by (induction chain) simp_all

lemma chain_lookup_None_ball:
  "chain_lookup func chain h = None \<longleftrightarrow> (\<forall>e \<in> set chain. func (fst e) \<noteq> h)"
  by (induction chain) auto

text \<open>
  Claim C2. Lookup matches by stored hash only. For every table a client can hold and
  every key, the lookup is the walk along the chain of bucket
  \<open>hash key mod no_buckets\<close> that returns the value of the first entry whose key has the
  hash of the looked-up key; when no entry of that chain has the hash, nothing is found;
  and two keys with the same hash, distinct or not, get the same answer.
\<close>

theorem lookup_by_stored_hash:
  assumes "reachable ht"
  shows "hash_table_lookup ht key =
           map_option snd
             (find (\<lambda>e. hash_function ht (fst e) = hash_function ht key)
                (buckets ht ! (unat (hash_function ht key) mod unat (no_buckets ht)))) \<and>
         ((\<forall>e \<in> set (buckets ht ! (unat (hash_function ht key) mod unat (no_buckets ht))).
              hash_function ht (fst e) \<noteq> hash_function ht key) \<longrightarrow>
            hash_table_lookup ht key = None) \<and>
         (hash_function ht key' = hash_function ht key \<longrightarrow>
            hash_table_lookup ht key' = hash_table_lookup ht key)"
proof -
  from assms have "ht_inv ht" by (rule reachable_inv)
  then have pr: "list_ex (\<lambda>p. p = no_buckets ht) primes" by (simp add: ht_inv_iff)
  have b: "bucket_of h (no_buckets ht) = unat h mod unat (no_buckets ht)" for h
    using pr by (rule bucket_of_unat)
  have l: "hash_table_lookup ht k =
           chain_lookup (hash_function ht)
             (buckets ht ! (unat (hash_function ht k) mod unat (no_buckets ht))) (hash_function ht k)"
    for k
    by (simp add: hash_table_lookup_def Let_def b)
  have "hash_table_lookup ht key =
           map_option snd
             (find (\<lambda>e. hash_function ht (fst e) = hash_function ht key)
                (buckets ht ! (unat (hash_function ht key) mod unat (no_buckets ht))))"
    by (simp only: l chain_lookup_find)
  moreover have "(\<forall>e \<in> set (buckets ht ! (unat (hash_function ht key) mod unat (no_buckets ht))).
              hash_function ht (fst e) \<noteq> hash_function ht key) \<longrightarrow>
            hash_table_lookup ht key = None"
    by (simp only: l chain_lookup_None_ball) simp
  moreover have "hash_function ht key' = hash_function ht key \<longrightarrow>
            hash_table_lookup ht key' = hash_table_lookup ht key"
    by (simp add: l)
  ultimately show ?thesis by (intro conjI)
qed

text \<open>
  On the table whose hash function sends every key to 7, the value stored under key 1
  is also what a lookup of key 2 returns.
\<close>

theorem lookup_by_stored_hash_witness:
  "hash_table_lookup (hash_table_insert True True colliding_table 1 10) 2 = Some 10"
proof -
  let ?t = "hash_table_insert True True colliding_table 1 10"
  have r: "reachable ?t" using reachable_colliding_table by (rule reachable.insert)
  have h: "hash_function ?t 2 = hash_function ?t 1" by (simp add: colliding_table_def)
  have "hash_table_lookup ?t 1 = Some 10"
    using reachable_inv [OF reachable_colliding_table] by (rule lookup_insert_same) simp
  with lookup_by_stored_hash [OF r, of 1 2] h show ?thesis by simp
qed

subsection \<open>Remove of an absent key\<close>

text \<open>
  Claim C9. When no entry of the key's bucket chain has the hash of the key, remove
  returns \<open>false\<close> (the result \<open>None\<close>) and the table it returns is the table it was
  given, with every field as before. In particular, on a table fresh from the constructor
  remove returns \<open>false\<close> for any key and the size stays \<open>0\<close>.
\<close>

theorem remove_absent_noop:
  "((\<forall>e \<in> set (buckets ht ! bucket_of (hash_function ht key) (no_buckets ht)).
        hash_function ht (fst e) \<noteq> hash_function ht key) \<longrightarrow>
      hash_table_remove ht key = (ht, None)) \<and>
   (hash_table_create_dynamic member_i table_ok buckets_ok nb lf func kf vf = Table ht0 \<longrightarrow>
      hash_table_remove ht0 key0 = (ht0, None) \<and> size_ht (fst (hash_table_remove ht0 key0)) = 0)"
proof (intro conjI impI)
  assume "\<forall>e \<in> set (buckets ht ! bucket_of (hash_function ht key) (no_buckets ht)).
        hash_function ht (fst e) \<noteq> hash_function ht key"
  then have "hash_table_lookup ht key = None"
    by (simp only: hash_table_lookup_def Let_def chain_lookup_None_ball)
  then show "hash_table_remove ht key = (ht, None)" by (rule remove_absent)
next
  assume c: "hash_table_create_dynamic member_i table_ok buckets_ok nb lf func kf vf = Table ht0"
  then have "ht_inv ht0" by (rule create_inv)
  then have pr: "list_ex (\<lambda>p. p = no_buckets ht0) primes" by (simp add: ht_inv_iff)
  from c have "buckets ht0 = replicate (unat (no_buckets ht0)) []" and sz: "size_ht ht0 = 0"
    by (simp_all add: create_Table_iff)
  with pr have "hash_table_lookup ht0 key0 = None" by (intro lookup_replicate_Nil)
  then show r: "hash_table_remove ht0 key0 = (ht0, None)" by (rule remove_absent)
  show "size_ht (fst (hash_table_remove ht0 key0)) = 0" by (simp add: r sz)
qed

text \<open>
  Key 18 is absent from the table that holds key 1 only (both belong to bucket 1), and
  the empty default table loses nothing either.
\<close>

theorem remove_absent_noop_witness:
  "hash_table_remove (hash_table_insert True True int_table_17 1 5) 18 =
     (hash_table_insert True True int_table_17 1 5, None) \<and>
   hash_table_remove int_table_17 3 = (int_table_17, None) \<and>
   size_ht (fst (hash_table_remove int_table_17 3)) = 0"
proof -
  let ?t = "hash_table_insert True True int_table_17 1 5"
  have inv: "ht_inv int_table_17" using reachable_int_table_17 by (rule reachable_inv)
  have "hash_table_lookup ?t 18 = hash_table_lookup int_table_17 18"
    using inv by (rule lookup_insert_other) (simp add: int_table_17_def default_hash_function_def)
  then have none: "hash_table_lookup ?t 18 = None" by (simp add: lookup_int_table_17)
  have "ht_inv ?t" using inv by (rule insert_inv)
  then have pr: "list_ex (\<lambda>p. p = no_buckets ?t) primes"
    and len: "length (buckets ?t) = unat (no_buckets ?t)"
    and ok: "\<forall>i < length (buckets ?t). chain_ok (hash_function ?t) (no_buckets ?t) i (buckets ?t ! i)"
    by (simp_all add: ht_inv_iff)
  from none have "chain_lookup (hash_function ?t)
        (buckets ?t ! bucket_of (hash_function ?t 18) (no_buckets ?t)) (hash_function ?t 18) = None"
    by (simp add: hash_table_lookup_def Let_def)
  then have absent: "\<forall>e \<in> set (buckets ?t ! bucket_of (hash_function ?t 18) (no_buckets ?t)).
        hash_function ?t (fst e) \<noteq> hash_function ?t 18"
    by (simp only: chain_lookup_None_ball)
  note inst = remove_absent_noop [of ?t 18 id True True 17 "Finite (3 / 4)" None None None
      int_table_17 3]
  from inst absent have "hash_table_remove ?t 18 = (?t, None)" by blast
  moreover from inst create_int_table_17
  have "hash_table_remove int_table_17 3 = (int_table_17, None) \<and>
        size_ht (fst (hash_table_remove int_table_17 3)) = 0"
    unfolding hash_table_create_def by blast
  ultimately show ?thesis by (rule conjI)
qed

subsection \<open>All on an empty table\<close>

text \<open>
  Claim C10. On a table of size \<open>0\<close>, \<^verbatim>\<open>hash_table_all\<close> returns \<open>true\<close> for every
  predicate and every extra argument, and the predicate is not called once: the list of
  the calls made is empty.
\<close>

theorem all_on_empty_table:
  assumes "size_ht ht = 0"
  shows "hash_table_all ht P x = Inr True \<and> hash_table_all_calls ht P x = Inr (True, [])"
  using assms by (simp add: hash_table_all_def hash_table_all_calls_def)

theorem all_on_empty_table_witness:
  "hash_table_all int_table_17 (\<lambda>key val (x :: unit). False) () = Inr True \<and>
   hash_table_all_calls int_table_17 (\<lambda>key val (x :: unit). False) () = Inr (True, [])"
proof -
  have "size_ht int_table_17 = 0" by (simp add: int_table_17_def)
  then show ?thesis by (rule all_on_empty_table)
qed

subsection \<open>Round trip and update in place\<close>

lemma lookup_insert_dropped:
  assumes "ht_inv ht" and "hash_table_lookup ht key = None"
  shows "hash_table_lookup (hash_table_insert resize_ok False ht key val) key' =
         hash_table_lookup ht key'"
  by (simp add: insert_absent(1) [OF assms] resize_lookup [OF assms(1)])

lemma resize_length_concat:
  assumes "ht_inv ht"
  shows "length (concat (buckets (hash_table_resize ok ht))) = length (concat (buckets ht))"
proof (cases "hash_table_resize ok ht = ht")
  case True
  then show ?thesis by simp
next
  case False
  then have nxt: "get_next_prime_number (ucast (no_buckets ht)) \<noteq> - 1"
    by (auto simp add: hash_table_resize_def Let_def split: if_splits)
  note r = rehash_result [OF assms nxt]
  from False have eq: "buckets (hash_table_resize ok ht) =
      fold (\<lambda>i buckets_new. fold (rehash_entry (hash_function ht)
                              (get_next_prime_number (ucast (no_buckets ht))))
                              (buckets ht ! i) buckets_new)
                      [0..<nat (sint (ucast (no_buckets ht) :: c_int))]
                      (replicate (unat (scast (get_next_prime_number (ucast (no_buckets ht))) :: size_t)) [])"
    by (auto simp add: hash_table_resize_def Let_def split: if_splits)
  show ?thesis unfolding eq by (rule r(5))
qed

lemma insert_present_length_concat:
  assumes inv: "ht_inv ht" and pres: "hash_table_lookup ht key \<noteq> None"
  shows "length (concat (buckets (hash_table_insert resize_ok entry_ok ht key val))) =
         length (concat (buckets ht))"
proof -
  define t where "t = hash_table_resize resize_ok ht"
  define b where "b = bucket_of (hash_function ht key) (no_buckets t)"
  define chain where "chain = buckets t ! b"
  define pos where "pos = find_previous_entry_for_key (hash_function ht) chain (hash_function ht key)"
  note p1 = insert_present(1) [where resize_ok = resize_ok and entry_ok = entry_ok and val = val,
              OF inv pres, folded t_def, folded b_def, folded chain_def, folded pos_def]
  have tinv: "ht_inv t" unfolding t_def using inv by (rule resize_inv)
  have blt: "b < length (buckets t)"
    unfolding b_def using tinv bucket_of_less [of "no_buckets t"] by (simp add: ht_inv_iff)
  have "length (concat ((buckets t)[b := chain[pos := (fst (chain ! pos), val)]])) =
        length (concat (buckets t))"
    using length_concat_update [OF blt, of "chain[pos := (fst (chain ! pos), val)]"]
    by (simp add: chain_def)
  then show ?thesis
    by (simp add: p1 t_def resize_length_concat [OF inv])
qed

text \<open>
  Claim C1, as amended. For every table a client can hold, every key and every value:
  when the allocation of the new entry succeeds, or an entry with the key's hash is
  already there (so that none is allocated), the lookup of the key right after the insert
  finds the inserted value. The outcome of the allocation inside the resize does not
  matter.
\<close>

theorem insert_then_lookup:
  assumes "reachable ht"
      and "entry_ok \<or> hash_table_lookup ht key \<noteq> None"
  shows "hash_table_lookup (hash_table_insert resize_ok entry_ok ht key val) key = Some val"
  using reachable_inv [OF assms(1)] assms(2) by (rule lookup_insert_same)

theorem insert_then_lookup_witness:
  "hash_table_lookup (hash_table_insert True True int_table_17 1 5) 1 = Some 5 \<and>
   hash_table_lookup
     (hash_table_insert False False (hash_table_insert True True int_table_17 1 5) 1 6) 1 = Some 6"
proof -
  let ?t = "hash_table_insert True True int_table_17 1 5"
  have a: "hash_table_lookup ?t 1 = Some 5"
    using reachable_int_table_17 by (rule insert_then_lookup) simp
  have "reachable ?t" using reachable_int_table_17 by (rule reachable.insert)
  then have "hash_table_lookup (hash_table_insert False False ?t 1 6) 1 = Some 6"
    by (rule insert_then_lookup) (simp add: a)
  with a show ?thesis by (rule conjI)
qed

text \<open>
  The claim as stated fails when \<^verbatim>\<open>calloc\<close> returns \<^verbatim>\<open>NULL\<close> in \<^verbatim>\<open>entry_create\<close>: the
  insert is dropped after its message, and the lookup that follows finds nothing.
\<close>

theorem insert_then_lookup_counterexample:
  "reachable int_table_17 \<and>
   hash_table_lookup (hash_table_insert True False int_table_17 1 5) 1 \<noteq> Some 5"
proof -
  have "hash_table_lookup (hash_table_insert True False int_table_17 1 5) 1 =
        hash_table_lookup int_table_17 1"
    using reachable_inv [OF reachable_int_table_17] lookup_int_table_17
    by (rule lookup_insert_dropped)
  then show ?thesis by (simp add: lookup_int_table_17 reachable_int_table_17)
qed

text \<open>
  Claim C6, as amended. For every table a client can hold, every key and all values
  \<open>v1\<close>, \<open>v2\<close>: when the first insert stored its entry (its allocation succeeded, or the
  hash was present already), then after the second insert the lookup of the key finds
  \<open>v2\<close>, the size is what the first insert left, and so is the number of entries: the
  value was overwritten in place. This holds whatever the allocations of the second
  insert and of the two resizes do.
\<close>

theorem update_in_place:
  assumes "reachable ht"
      and "entry_ok1 \<or> hash_table_lookup ht key \<noteq> None"
  shows "hash_table_lookup
           (hash_table_insert resize_ok2 entry_ok2
              (hash_table_insert resize_ok1 entry_ok1 ht key v1) key v2) key = Some v2 \<and>
         size_ht (hash_table_insert resize_ok2 entry_ok2
              (hash_table_insert resize_ok1 entry_ok1 ht key v1) key v2) =
           size_ht (hash_table_insert resize_ok1 entry_ok1 ht key v1) \<and>
         length (concat (buckets (hash_table_insert resize_ok2 entry_ok2
              (hash_table_insert resize_ok1 entry_ok1 ht key v1) key v2))) =
           length (concat (buckets (hash_table_insert resize_ok1 entry_ok1 ht key v1)))"
proof -
  let ?t1 = "hash_table_insert resize_ok1 entry_ok1 ht key v1"
  from assms(1) have inv: "ht_inv ht" by (rule reachable_inv)
  then have inv1: "ht_inv ?t1" by (rule insert_inv)
  have "hash_table_lookup ?t1 key = Some v1"
    using inv assms(2) by (rule lookup_insert_same)
  then have pres: "hash_table_lookup ?t1 key \<noteq> None" by simp
  then have "hash_table_lookup (hash_table_insert resize_ok2 entry_ok2 ?t1 key v2) key = Some v2"
    using inv1 by (intro lookup_insert_same) simp_all
  moreover have "size_ht (hash_table_insert resize_ok2 entry_ok2 ?t1 key v2) = size_ht ?t1"
    using pres by (simp add: insert_size [OF inv1])
  moreover have "length (concat (buckets (hash_table_insert resize_ok2 entry_ok2 ?t1 key v2))) =
                 length (concat (buckets ?t1))"
    using inv1 pres by (rule insert_present_length_concat)
  ultimately show ?thesis by (intro conjI)
qed

text \<open>The scenario of the test \<^verbatim>\<open>test_lookupinsert_key_in_use\<close>: key 1 with 1, then with 2.\<close>

theorem update_in_place_witness:
  "hash_table_lookup
     (hash_table_insert True True (hash_table_insert True True int_table_17 1 1) 1 2) 1 = Some 2 \<and>
   size_ht (hash_table_insert True True (hash_table_insert True True int_table_17 1 1) 1 2) = 1"
proof -
  have "size_ht (hash_table_insert True True int_table_17 1 1) = size_ht int_table_17 + 1"
    by (simp add: insert_size [OF reachable_inv [OF reachable_int_table_17]] lookup_int_table_17)
  then have "size_ht (hash_table_insert True True int_table_17 1 1) = 1"
    by (simp add: int_table_17_def)
  with update_in_place [OF reachable_int_table_17, of True 1 True True True 1 2]
  show ?thesis by simp
qed

text \<open>
  The claim as stated fails when the entry allocation of the first insert fails: the
  second insert then creates the entry, and the size goes from 0 to 1.
\<close>

theorem update_in_place_counterexample:
  "reachable int_table_17 \<and>
   size_ht (hash_table_insert True True (hash_table_insert True False int_table_17 1 1) 1 2) \<noteq>
   size_ht (hash_table_insert True False int_table_17 1 1)"
proof -
  let ?t1 = "hash_table_insert True False int_table_17 1 1"
  have inv: "ht_inv int_table_17" using reachable_int_table_17 by (rule reachable_inv)
  then have inv1: "ht_inv ?t1" by (rule insert_inv)
  have "size_ht ?t1 = size_ht int_table_17"
    by (simp add: insert_size [OF inv])
  then have s1: "size_ht ?t1 = 0"
    by (simp add: int_table_17_def)
  have "hash_table_lookup ?t1 1 = hash_table_lookup int_table_17 1"
    using inv lookup_int_table_17 by (rule lookup_insert_dropped)
  then have "hash_table_lookup ?t1 1 = None" by (simp add: lookup_int_table_17)
  then have "size_ht (hash_table_insert True True ?t1 1 2) = size_ht ?t1 + 1"
    by (simp add: insert_size [OF inv1])
  with s1 show ?thesis by (simp add: reachable_int_table_17)
qed

subsection \<open>The order of the chains\<close>

lemma inv_chains_ascending:
  assumes "ht_inv ht"
  shows "chains_ascending ht"
  using assms by (simp add: chains_ascending_def ht_inv_iff chain_ok_iff list_all_length)

text \<open>
  Claim C5. In every table a client can hold, the hashes of the keys ascend (strictly)
  along the chain of every bucket; the table an insert returns and the table the resize
  with its rehash returns are ordered in the same way.
\<close>

theorem chains_hash_ordered:
  assumes "reachable ht"
  shows "chains_ascending ht \<and>
         chains_ascending (hash_table_insert resize_ok entry_ok ht key val) \<and>
         chains_ascending (hash_table_resize resize_ok ht)"
proof -
  from assms have inv: "ht_inv ht" by (rule reachable_inv)
  then have "chains_ascending ht" by (rule inv_chains_ascending)
  moreover from inv have "chains_ascending (hash_table_insert resize_ok entry_ok ht key val)"
    by (intro inv_chains_ascending insert_inv)
  moreover from inv have "chains_ascending (hash_table_resize resize_ok ht)"
    by (intro inv_chains_ascending resize_inv)
  ultimately show ?thesis by (intro conjI)
qed

text \<open>
  The chain of bucket 0 after the inserts of the keys 17 and 0, which both belong there:
  key 0 comes first, although it was inserted last.
\<close>

theorem chains_hash_ordered_witness:
  "chains_ascending (hash_table_insert True True (hash_table_insert True True int_table_17 17 1) 0 2) \<and>
   buckets (hash_table_insert True True (hash_table_insert True True int_table_17 17 1) 0 2) ! 0 =
     [(0, 2), (17, 1)]"
proof -
  have t1: "hash_table_insert True True int_table_17 17 1 =
      int_table_17\<lparr>buckets := (replicate 17 [])[0 := [(17, 1)]], size_ht := 1\<rparr>"
    by (simp add: hash_table_insert_def hash_table_resize_def default_hash_function_def
          bucket_of_def float_eval int_table_17_def)
  have "buckets (hash_table_insert True True (hash_table_insert True True int_table_17 17 1) 0 2) ! 0 =
      [(0, 2), (17, 1)]"
    by (simp add: t1)
       (simp add: hash_table_insert_def hash_table_resize_def default_hash_function_def
          bucket_of_def float_eval int_table_17_def)
  moreover have "reachable (hash_table_insert True True int_table_17 17 1)"
    using reachable_int_table_17 by (rule reachable.insert)
  ultimately show ?thesis
    using chains_hash_ordered [of "hash_table_insert True True int_table_17 17 1" True True 0 2]
    by simp
qed

subsection \<open>The resize ceiling\<close>

lemma next_prime_last_int: "get_next_prime_number 16381 = - 1"
  by (simp add: get_next_prime_number_def primes_def)

lemma resize_at_last_prime:
  assumes "no_buckets ht = 16381"
  shows "hash_table_resize ok ht = ht"
  using assms by (simp add: hash_table_resize_def Let_def next_prime_last_int)

lemma insert_at_last_prime:
  assumes "no_buckets ht = 16381"
  shows "no_buckets (hash_table_insert resize_ok entry_ok ht key val) = 16381"
  using assms by (simp add: insert_no_buckets resize_at_last_prime)

lemma insert_all_hash_function [simp]:
  "hash_function (insert_all ops ht) = hash_function ht"
  by (induction ops ht rule: insert_all.induct) simp_all

lemma insert_all_inv: "ht_inv ht \<Longrightarrow> ht_inv (insert_all ops ht)"
  by (induction ops ht rule: insert_all.induct) (simp_all add: insert_inv)

lemma insert_all_at_last_prime:
  "no_buckets ht = 16381 \<Longrightarrow> no_buckets (insert_all ops ht) = 16381"
  by (induction ops ht rule: insert_all.induct) (simp_all add: insert_at_last_prime)

lemma insert_all_append:
  "insert_all (ops @ ops') ht = insert_all ops' (insert_all ops ht)"
  by (induction ops ht rule: insert_all.induct) simp_all

text \<open>The key, the value and the entry allocation of one insert of a run.\<close>

lemma lookup_insert_all_other:
  "ht_inv ht \<Longrightarrow>
   hash_function ht key \<notin> (\<lambda>op. hash_function ht (fst (snd (snd op)))) ` set ops \<Longrightarrow>
   hash_table_lookup (insert_all ops ht) key = hash_table_lookup ht key"
proof (induction ops ht rule: insert_all.induct)
  case (1 ht)
  then show ?case by simp
next
  case (2 resize_ok entry_ok k v rest ht)
  from "2.prems"(2) have ne: "hash_function ht key \<noteq> hash_function ht k"
    and rest: "hash_function ht key \<notin> (\<lambda>op. hash_function ht (fst (snd (snd op)))) ` set rest"
    by auto
  have "hash_table_lookup (insert_all rest (hash_table_insert resize_ok entry_ok ht k v)) key =
        hash_table_lookup (hash_table_insert resize_ok entry_ok ht k v) key"
    using "2.prems"(1) rest by (intro "2.IH" insert_inv) simp_all
  also have "\<dots> = hash_table_lookup ht key"
    using "2.prems"(1) ne by (rule lookup_insert_other)
  finally show ?case by simp
qed

lemma lookup_insert_all_member:
  "ht_inv ht \<Longrightarrow>
   distinct (map (\<lambda>op. hash_function ht (fst (snd (snd op)))) ops) \<Longrightarrow>
   \<forall>op \<in> set ops. fst (snd op) \<Longrightarrow>
   op \<in> set ops \<Longrightarrow>
   hash_table_lookup (insert_all ops ht) (fst (snd (snd op))) = Some (snd (snd (snd op)))"
proof (induction ops ht rule: insert_all.induct)
  case (1 ht)
  then show ?case by simp
next
  case (2 resize_ok entry_ok k v rest ht)
  let ?t = "hash_table_insert resize_ok entry_ok ht k v"
  have inv': "ht_inv ?t" using "2.prems"(1) by (rule insert_inv)
  show ?case
  proof (cases "op = (resize_ok, entry_ok, k, v)")
    case True
    from "2.prems"(2)
    have "hash_function ?t k \<notin> (\<lambda>op. hash_function ?t (fst (snd (snd op)))) ` set rest"
      by auto
    with inv' have "hash_table_lookup (insert_all rest ?t) k = hash_table_lookup ?t k"
      by (rule lookup_insert_all_other)
    also have "\<dots> = Some v"
    proof (rule lookup_insert_same [OF "2.prems"(1)])
      from "2.prems"(3) have entry_ok by simp
      then show "entry_ok \<or> hash_table_lookup ht k \<noteq> None" by (rule disjI1)
    qed
    finally show ?thesis by (simp add: True)
  next
    case False
    with "2.prems"(4) have "op \<in> set rest" by simp
    moreover have "distinct (map (\<lambda>op. hash_function ?t (fst (snd (snd op)))) rest)"
      using "2.prems"(2) by simp
    moreover have "\<forall>op \<in> set rest. fst (snd op)" using "2.prems"(3) by simp
    ultimately have "hash_table_lookup (insert_all rest ?t) (fst (snd (snd op))) =
                     Some (snd (snd (snd op)))"
      using inv' by (intro "2.IH")
    then show ?thesis by simp
  qed
qed

lemma size_insert_all:
  "ht_inv ht \<Longrightarrow>
   distinct (map (\<lambda>op. hash_function ht (fst (snd (snd op)))) ops) \<Longrightarrow>
   \<forall>op \<in> set ops. fst (snd op) \<Longrightarrow>
   \<forall>op \<in> set ops. hash_table_lookup ht (fst (snd (snd op))) = None \<Longrightarrow>
   size_ht (insert_all ops ht) = size_ht ht + of_nat (length ops)"
proof (induction ops ht rule: insert_all.induct)
  case (1 ht)
  then show ?case by simp
next
  case (2 resize_ok entry_ok k v rest ht)
  let ?t = "hash_table_insert resize_ok entry_ok ht k v"
  have inv': "ht_inv ?t" using "2.prems"(1) by (rule insert_inv)
  have eo: entry_ok and absent: "hash_table_lookup ht k = None"
    using "2.prems"(3,4) by simp_all
  have s: "size_ht ?t = size_ht ht + 1"
    using eo absent by (simp add: insert_size [OF "2.prems"(1)])
  have "\<forall>op \<in> set rest. hash_table_lookup ?t (fst (snd (snd op))) = None"
  proof
    fix op assume m: "op \<in> set rest"
    then have "hash_function ht (fst (snd (snd op)))
                 \<in> (\<lambda>op. hash_function ht (fst (snd (snd op)))) ` set rest"
      by (rule imageI)
    moreover from "2.prems"(2)
    have "hash_function ht k \<notin> (\<lambda>op. hash_function ht (fst (snd (snd op)))) ` set rest"
      by simp
    ultimately have "hash_function ht (fst (snd (snd op))) \<noteq> hash_function ht k"
      by (metis)
    with "2.prems"(1) have "hash_table_lookup ?t (fst (snd (snd op))) =
                            hash_table_lookup ht (fst (snd (snd op)))"
      by (rule lookup_insert_other)
    with "2.prems"(4) m show "hash_table_lookup ?t (fst (snd (snd op))) = None" by simp
  qed
  moreover have "distinct (map (\<lambda>op. hash_function ?t (fst (snd (snd op)))) rest)"
    using "2.prems"(2) by simp
  moreover have "\<forall>op \<in> set rest. fst (snd op)" using "2.prems"(3) by simp
  ultimately have "size_ht (insert_all rest ?t) = size_ht ?t + of_nat (length rest)"
    using inv' by (intro "2.IH")
  with s show ?case by simp
qed

text \<open>
  Claim C7, as amended. For a table created with 16381 buckets: resize returns the table
  as it is, whatever it holds; and after any run of inserts whose entry allocations
  succeed and whose keys have pairwise distinct hashes, the bucket count is still 16381,
  the size is the number of the inserts (as a 64-bit count), and the lookup of every
  inserted key finds the value inserted with it.
\<close>

theorem resize_ceiling:
  assumes "hash_table_create_dynamic member_i table_ok buckets_ok 16381 lf func kf vf = Table ht"
      and "\<forall>op \<in> set ops. fst (snd op)"
      and "distinct (map (\<lambda>op. hash_function ht (fst (snd (snd op)))) ops)"
  shows "hash_table_resize ok (insert_all ops ht) = insert_all ops ht \<and>
         no_buckets (insert_all ops ht) = 16381 \<and>
         size_ht (insert_all ops ht) = of_nat (length ops) \<and>
         (\<forall>op \<in> set ops.
            hash_table_lookup (insert_all ops ht) (fst (snd (snd op))) = Some (snd (snd (snd op))))"
proof -
  from assms(1) have inv: "ht_inv ht" by (rule create_inv)
  from assms(1) have nb: "no_buckets ht = 16381" and sz: "size_ht ht = 0"
    and bs: "buckets ht = replicate (unat (no_buckets ht)) []"
    by (simp_all add: create_Table_iff)
  from inv have "list_ex (\<lambda>p. p = no_buckets ht) primes" by (simp add: ht_inv_iff)
  then have empty: "hash_table_lookup ht key = None" for key
    using bs by (rule lookup_replicate_Nil)
  have n: "no_buckets (insert_all ops ht) = 16381"
    using nb by (rule insert_all_at_last_prime)
  then have "hash_table_resize ok (insert_all ops ht) = insert_all ops ht"
    by (rule resize_at_last_prime)
  moreover have "size_ht (insert_all ops ht) = size_ht ht + of_nat (length ops)"
    using inv assms(3) assms(2) by (rule size_insert_all) (simp add: empty)
  then have "size_ht (insert_all ops ht) = of_nat (length ops)" by (simp add: sz)
  moreover have "\<forall>op \<in> set ops.
            hash_table_lookup (insert_all ops ht) (fst (snd (snd op))) = Some (snd (snd (snd op)))"
  proof
    fix op assume "op \<in> set ops"
    with inv assms(3) assms(2)
    show "hash_table_lookup (insert_all ops ht) (fst (snd (snd op))) = Some (snd (snd (snd op)))"
      by (rule lookup_insert_all_member)
  qed
  ultimately show ?thesis using n by (intro conjI)
qed

text \<open>
  The keys 1, 2 and 16382 (the last one in the bucket of key 1) on the default hash
  function, the resize allocation failing or not.
\<close>

theorem resize_ceiling_witness:
  "size_ht (insert_all [(True, True, 1, 10), (False, True, 2, 20), (True, True, 16382, 30)]
      (int_table_17\<lparr>no_buckets := 16381, load_factor := Finite (1 / 100),
                     buckets := replicate 16381 []\<rparr>)) = 3 \<and>
   no_buckets (insert_all [(True, True, 1, 10), (False, True, 2, 20), (True, True, 16382, 30)]
      (int_table_17\<lparr>no_buckets := 16381, load_factor := Finite (1 / 100),
                     buckets := replicate 16381 []\<rparr>)) = 16381 \<and>
   hash_table_lookup (insert_all [(True, True, 1, 10), (False, True, 2, 20), (True, True, 16382, 30)]
      (int_table_17\<lparr>no_buckets := 16381, load_factor := Finite (1 / 100),
                     buckets := replicate 16381 []\<rparr>)) 1 = Some 10"
proof -
  let ?t = "int_table_17\<lparr>no_buckets := 16381, load_factor := Finite (1 / 100),
                     buckets := replicate 16381 []\<rparr>"
  let ?ops = "[(True, True, 1, 10), (False, True, 2, 20), (True, True, 16382, 30 :: c_int)]"
  have c: "hash_table_create_dynamic id True True 16381 (Finite (1 / 100)) None None None = Table ?t"
    by (simp add: hash_table_create_dynamic_def int_table_17_def
          is_number_in_prime_library_def primes_def)
  have a: "\<forall>op \<in> set ?ops. fst (snd op)" by simp
  have d: "distinct (map (\<lambda>op. hash_function ?t (fst (snd (snd op)))) ?ops)"
    by (simp add: int_table_17_def default_hash_function_def)
  from resize_ceiling [OF c a d] show ?thesis by simp
qed

text \<open>
  The claim as stated fails for distinct keys whose hashes are equal: with the hash
  function that sends every key to 7, the keys 1 and 2 share one entry, the size is 1
  after both inserts, and the lookup of key 1 finds the value inserted with key 2.
\<close>

theorem resize_ceiling_counterexample:
  "hash_table_create_dynamic id True True 16381 (Finite (3 / 4)) (Some (\<lambda>key. 7)) None None =
     Table colliding_table \<and>
   (1 :: c_int) \<noteq> 2 \<and>
   size_ht (insert_all [(True, True, 1, 10), (True, True, 2, 20)] colliding_table) = 1 \<and>
   hash_table_lookup (insert_all [(True, True, 1, 10), (True, True, 2, 20)] colliding_table) 1 =
     Some 20"
proof -
  let ?t1 = "hash_table_insert True True colliding_table 1 10"
  let ?t2 = "hash_table_insert True True ?t1 2 20"
  have inv: "ht_inv colliding_table" using reachable_colliding_table by (rule reachable_inv)
  then have inv1: "ht_inv ?t1" by (rule insert_inv)
  have "size_ht ?t1 = size_ht colliding_table + 1"
    by (simp add: insert_size [OF inv] lookup_colliding_table)
  then have s1: "size_ht ?t1 = 1" by (simp add: colliding_table_def)
  have l1: "hash_table_lookup ?t1 1 = Some 10"
    using inv by (rule lookup_insert_same) simp
  have h: "hash_function colliding_table = (\<lambda>key. 7)" by (simp add: colliding_table_def)
  have same: "hash_table_lookup t 1 = hash_table_lookup t 2"
    if "hash_function t = (\<lambda>key. 7)" for t :: "c_int hash_table"
    using that by (simp add: hash_table_lookup_def Let_def)
  have "hash_table_lookup ?t1 2 = Some 10" using same [of ?t1] l1 by (simp add: h)
  then have s2: "size_ht ?t2 = 1" by (simp add: insert_size [OF inv1] s1)
  have "hash_table_lookup ?t2 2 = Some 20"
    using inv1 by (rule lookup_insert_same) simp
  then have l2: "hash_table_lookup ?t2 1 = Some 20" using same [of ?t2] by (simp add: h)
  show ?thesis using create_colliding_table s2 l2 by simp
qed

subsection \<open>apply\_to\_all\<close>

lemma upt_17: "[0..<17] = [0, 1, 2, 3, 4, 5, 6, 7, 8, 9, 10, 11, 12, 13, 14, 15, 16]"
  by (simp add: upt_rec)

lemma upt_3: "[0..<3] = [0, 1, 2]"
  by (simp add: upt_rec)

lemma replicate_3: "replicate 3 x = [x, x, x]"
  by (simp add: numeral_3_eq_3)

lemmas insert_eval =
  hash_table_insert_def hash_table_resize_def default_hash_function_def bucket_of_def float_eval

lemmas apply_eval =
  hash_table_apply_to_all_def hash_table_values_arr_def store_ref_def apply_step_def
  hash_table_keys_def linked_list_append_def linked_list_get_def set_value_def upt_17 upt_3 replicate_3

text \<open>
  The scenario of the test \<^verbatim>\<open>test_hash_table_apply_to_all\<close>: the keys 0, 1 and 2 sit in the
  buckets 0, 1 and 2, one entry each, so that slot \<^verbatim>\<open>i + j\<close> is the running index, and every
  value is set to 4.
\<close>

lemma apply_to_all_test_scenario:
  "map_sum id (\<lambda>ht. (hash_table_keys ht, hash_table_values ht))
     (hash_table_apply_to_all True (insert_all (key_inserts 3) int_table_17) set_value 4) =
   Inr ([0, 1, 2], [4, 4, 4])"
proof -
  have t: "insert_all (key_inserts 3) int_table_17 =
        int_table_17\<lparr>buckets := (replicate 17 [])[0 := [(0, 0)], 1 := [(1, 1)], 2 := [(2, 2)]],
                      size_ht := 3\<rparr>"
    by (simp add: key_inserts_def upt_3 insert_eval int_table_17_def)
  show ?thesis
    by (simp only: t) (simp add: apply_eval hash_table_values_def int_table_17_def)
qed

text \<open>
  Claim C3 does not hold of the code. \<^verbatim>\<open>hash_table_values_arr\<close> stores the pointer to the
  value of entry \<open>j\<close> of bucket \<open>i\<close> in slot \<^verbatim>\<open>i + j\<close> of an array of \<^verbatim>\<open>size\<close> slots, where the
  sibling functions \<^verbatim>\<open>hash_table_keys\<close> and \<^verbatim>\<open>hash_table_values\<close> append in running
  order. On the table that holds key 5 only, the store goes to slot 5 of a one-slot array.
  On the table with the keys 0, 17 (both in bucket 0) and 1, the pointer of bucket 1
  overwrites slot 1 and slot 2 stays \<^verbatim>\<open>NULL\<close>, which the transform is then handed.
\<close>

theorem apply_to_all_misplaced_slots:
  "hash_table_apply_to_all True (hash_table_insert True True int_table_17 5 5) set_value 4 =
     Inl Out_of_bounds \<and>
   hash_table_values_arr True
     (insert_all [(True, True, 0, 0), (True, True, 17, 17), (True, True, 1, 1)] int_table_17) =
     Inr (Some [Some (0, 0), Some (1, 0), None]) \<and>
   hash_table_apply_to_all True
     (insert_all [(True, True, 0, 0), (True, True, 17, 17), (True, True, 1, 1)] int_table_17)
     set_value 4 = Inl Null_dereference"
proof -
  have t5: "hash_table_insert True True int_table_17 5 5 =
      int_table_17\<lparr>buckets := (replicate 17 [])[5 := [(5, 5)]], size_ht := 1\<rparr>"
    by (simp add: insert_eval int_table_17_def)
  have a: "hash_table_apply_to_all True (hash_table_insert True True int_table_17 5 5) set_value 4 =
     Inl Out_of_bounds"
    by (simp only: t5) (simp add: apply_eval int_table_17_def)
  have t3: "insert_all [(True, True, 0, 0), (True, True, 17, 17), (True, True, 1, 1)] int_table_17 =
      int_table_17\<lparr>buckets := (replicate 17 [])[0 := [(0, 0), (17, 17)], 1 := [(1, 1)]],
                    size_ht := 3\<rparr>"
    by (simp add: insert_eval int_table_17_def)
  have b: "hash_table_values_arr True
     (insert_all [(True, True, 0, 0), (True, True, 17, 17), (True, True, 1, 1)] int_table_17) =
     Inr (Some [Some (0, 0), Some (1, 0), None])"
    by (simp only: t3) (simp add: apply_eval int_table_17_def)
  have c: "hash_table_apply_to_all True
     (insert_all [(True, True, 0, 0), (True, True, 17, 17), (True, True, 1, 1)] int_table_17)
     set_value 4 = Inl Null_dereference"
    by (simp only: t3) (simp add: apply_eval int_table_17_def)
  from a b c show ?thesis by (intro conjI)
qed

subsection \<open>Creation\<close>

text \<open>What the constructor returns on a bucket count of the library and a positive load factor.\<close>

lemma create_valid:
  assumes "list_ex (\<lambda>p. p = nb) primes" and "\<not> float_le lf (Finite 0)"
  shows "hash_table_create_dynamic member_i True True nb lf func kf vf =
         Table \<lparr>no_buckets = nb, load_factor = lf,
           hash_function = (case func of None \<Rightarrow> default_hash_function member_i | Some f \<Rightarrow> f),
           key_equiv = (case kf of None \<Rightarrow> default_key_equiv member_i | Some f \<Rightarrow> f),
           value_equiv = (case vf of None \<Rightarrow> default_value_equiv member_i | Some f \<Rightarrow> f),
           size_ht = 0, buckets = replicate (unat nb) []\<rparr>"
proof -
  from assms(1) have "unat nb < 2 ^ 31" using prime_unat_bounds by blast
  moreover from this assms(1) have "is_number_in_prime_library (ucast nb)"
    by (simp add: is_number_in_prime_library_def widen_narrow_small)
  ultimately show ?thesis
    using assms(2) by (simp add: create_Table_iff)
qed

lemma create_invalid:
  "\<not> is_number_in_prime_library (ucast nb) \<Longrightarrow>
     hash_table_create_dynamic member_i table_ok buckets_ok nb lf func kf vf =
       Null Bucket_size_not_in_prime_library"
  "is_number_in_prime_library (ucast nb) \<Longrightarrow> float_le lf (Finite 0) \<Longrightarrow>
     hash_table_create_dynamic member_i table_ok buckets_ok nb lf func kf vf =
       Null Load_factor_not_greater_than_0"
  by (simp_all add: hash_table_create_dynamic_def)

text \<open>
  Claim C8 does not hold of the code. \<^verbatim>\<open>is_number_in_prime_library\<close> takes an \<^verbatim>\<open>int\<close>,
  so that the bucket count \<open>4294967313 = 2^32 + 17\<close>, which is not in the library, is
  tested as 17 and accepted. The constructor then does not return \<^verbatim>\<open>NULL\<close> for the
  bucket count: when both allocations succeed it goes on to initialise 4294967313
  buckets with an \<^verbatim>\<open>int\<close> counter, and it returns \<^verbatim>\<open>NULL\<close> only if an allocation fails.
\<close>

theorem create_accepts_wrapped_bucket_count:
  "\<not> list_ex (\<lambda>p. p = 4294967313) primes \<and>
   is_number_in_prime_library (ucast (4294967313 :: size_t)) \<and>
   hash_table_create_dynamic member_i True True 4294967313 (Finite (3 / 4)) func kf vf =
     Loop_counter_overflow \<and>
   hash_table_create_dynamic member_i True False 4294967313 (Finite (3 / 4)) func kf vf =
     Null Failed_to_allocate_entries"
  by (simp add: hash_table_create_dynamic_def is_number_in_prime_library_def primes_def)

end
